theory Spec2Isabelle
  imports Complex_Main
begin

section \<open>Double-precision values\<close>

text \<open>
  A C \<open>double\<close> is a binary64 value of IEEE 754: a real number or one of the three
  special values. The result of an arithmetic operation is the exact result rounded to
  the nearest double, ties to the even significand, as the default rounding mode does.

  The doubles around \<open>y\<close> are the multiples of \<open>ulp y\<close>, a power of two: 53 significant
  bits in the binade of \<open>y\<close>, and the fixed spacing \<open>2^-1074\<close> of the subnormal numbers
  below \<open>2^-1022\<close>. \<open>nearest y\<close> is the multiple nearest to \<open>y\<close>. A result that rounds
  to magnitude \<open>huge = 2^1024\<close> or more is an infinity (overflow); a result of magnitude
  up to \<open>2^-1075\<close> rounds to zero (underflow).

  The special values follow IEEE 754: a quotient with a zero divisor is an infinity
  (or NaN for 0/0), NaN is absorbing, and every comparison with NaN is false. The two
  signed zeros are identified, so a quotient with a zero divisor takes its sign from
  the dividend alone.
\<close>

datatype dbl = Fin real | PInf | NInf | NaN

definition round_even :: "real \<Rightarrow> int" where
  "round_even x =
     (if x - of_int \<lfloor>x\<rfloor> < 1 / 2 then \<lfloor>x\<rfloor>
      else if 1 / 2 < x - of_int \<lfloor>x\<rfloor> then \<lfloor>x\<rfloor> + 1
      else if even \<lfloor>x\<rfloor> then \<lfloor>x\<rfloor> else \<lfloor>x\<rfloor> + 1)"

definition expo :: "real \<Rightarrow> int" where
  "expo y = max (\<lfloor>log 2 \<bar>y\<bar>\<rfloor> - 52) (- 1074)"

definition ulp :: "real \<Rightarrow> real" where
  "ulp y = 2 powr of_int (expo y)"

definition nearest :: "real \<Rightarrow> real" where
  "nearest y = (if y = 0 then 0 else ulp y * of_int (round_even (y / ulp y)))"

definition huge :: real where
  "huge = 2 ^ 1024"

definition rnd :: "real \<Rightarrow> dbl" where
  "rnd y =
     (if huge \<le> \<bar>nearest y\<bar> then (if 0 < y then PInf else NInf)
      else Fin (nearest y))"

instantiation dbl :: "{zero, one, plus, minus, uminus, times, inverse, ord}"
begin

definition zero_dbl :: dbl where
  "zero_dbl = Fin 0"

definition one_dbl :: dbl where
  "one_dbl = Fin 1"

fun uminus_dbl :: "dbl \<Rightarrow> dbl" where
  "uminus_dbl (Fin a) = Fin (- a)"
| "uminus_dbl PInf = NInf"
| "uminus_dbl NInf = PInf"
| "uminus_dbl NaN = NaN"

fun plus_dbl :: "dbl \<Rightarrow> dbl \<Rightarrow> dbl" where
  "plus_dbl (Fin a) (Fin b) = rnd (a + b)"
| "plus_dbl (Fin a) PInf = PInf"
| "plus_dbl (Fin a) NInf = NInf"
| "plus_dbl PInf (Fin b) = PInf"
| "plus_dbl PInf PInf = PInf"
| "plus_dbl PInf NInf = NaN"
| "plus_dbl NInf (Fin b) = NInf"
| "plus_dbl NInf NInf = NInf"
| "plus_dbl NInf PInf = NaN"
| "plus_dbl NaN y = NaN"
| "plus_dbl x NaN = NaN"

definition minus_dbl :: "dbl \<Rightarrow> dbl \<Rightarrow> dbl" where
  "minus_dbl x y = x + (- y)"

fun times_dbl :: "dbl \<Rightarrow> dbl \<Rightarrow> dbl" where
  "times_dbl (Fin a) (Fin b) = rnd (a * b)"
| "times_dbl (Fin a) PInf = (if a = 0 then NaN else if 0 < a then PInf else NInf)"
| "times_dbl (Fin a) NInf = (if a = 0 then NaN else if 0 < a then NInf else PInf)"
| "times_dbl PInf (Fin b) = (if b = 0 then NaN else if 0 < b then PInf else NInf)"
| "times_dbl NInf (Fin b) = (if b = 0 then NaN else if 0 < b then NInf else PInf)"
| "times_dbl PInf PInf = PInf"
| "times_dbl PInf NInf = NInf"
| "times_dbl NInf PInf = NInf"
| "times_dbl NInf NInf = PInf"
| "times_dbl NaN y = NaN"
| "times_dbl x NaN = NaN"

fun divide_dbl :: "dbl \<Rightarrow> dbl \<Rightarrow> dbl" where
  "divide_dbl (Fin a) (Fin b) =
     (if b \<noteq> 0 then rnd (a / b)
      else if a = 0 then NaN else if 0 < a then PInf else NInf)"
| "divide_dbl (Fin a) PInf = Fin 0"
| "divide_dbl (Fin a) NInf = Fin 0"
| "divide_dbl PInf (Fin b) = (if 0 \<le> b then PInf else NInf)"
| "divide_dbl NInf (Fin b) = (if 0 \<le> b then NInf else PInf)"
| "divide_dbl PInf PInf = NaN"
| "divide_dbl PInf NInf = NaN"
| "divide_dbl NInf PInf = NaN"
| "divide_dbl NInf NInf = NaN"
| "divide_dbl NaN y = NaN"
| "divide_dbl x NaN = NaN"

definition inverse_dbl :: "dbl \<Rightarrow> dbl" where
  "inverse_dbl x = divide (Fin 1) x"

fun less_dbl :: "dbl \<Rightarrow> dbl \<Rightarrow> bool" where
  "less_dbl (Fin a) (Fin b) = (a < b)"
| "less_dbl (Fin a) PInf = True"
| "less_dbl NInf (Fin b) = True"
| "less_dbl NInf PInf = True"
| "less_dbl x y = False"

fun less_eq_dbl :: "dbl \<Rightarrow> dbl \<Rightarrow> bool" where
  "less_eq_dbl (Fin a) (Fin b) = (a \<le> b)"
| "less_eq_dbl NaN y = False"
| "less_eq_dbl x NaN = False"
| "less_eq_dbl NInf y = True"
| "less_eq_dbl x PInf = True"
| "less_eq_dbl x y = False"

instance ..

end

text \<open>
  The two functions of \<open>math.h\<close> the program calls, both taken as correctly rounded.
  IEEE 754 requires that of \<open>sqrt\<close>; for \<open>exp\<close> a C library may be off by one unit in
  the last place.
\<close>

fun exp_d :: "dbl \<Rightarrow> dbl" where
  "exp_d (Fin a) = rnd (exp a)"
| "exp_d PInf = PInf"
| "exp_d NInf = Fin 0"
| "exp_d NaN = NaN"

fun sqrt_d :: "dbl \<Rightarrow> dbl" where
  "sqrt_d (Fin a) = (if a < 0 then NaN else rnd (sqrt a))"
| "sqrt_d PInf = PInf"
| "sqrt_d NInf = NaN"
| "sqrt_d NaN = NaN"

text \<open>
  The constants of \<open>symnmf.c\<close>. The literal \<open>1e-4\<close> denotes the double nearest to
  \<open>1/10000\<close>; \<open>0.5\<close> is a double.
\<close>

definition MAX_ITER :: nat where
  "MAX_ITER = 300"

definition EPSILON :: dbl where
  "EPSILON = rnd (1 / 10000)"

definition beta :: dbl where
  "beta = Fin (1 / 2)"

section \<open>Memory\<close>

text \<open>
  A \<open>double**\<close> with its rows is a list of rows. The functions that only read their
  matrix arguments and return a new matrix (\<open>matrix_multiply\<close>, \<open>transpose_matrix\<close>,
  \<open>sym\<close>, \<open>ddg\<close>, \<open>norm\<close>) take the arguments by value. The functions that write through
  a pointer they are given (\<open>copy_matrix\<close>, \<open>update_H\<close>) and \<open>symnmf\<close>, which calls them,
  work on addresses into a store \<open>objs\<close> of matrices; a freed address holds \<open>None\<close>.

  The allocator is an arbitrary oracle: \<open>grants h c\<close> says whether request number \<open>c\<close>
  is satisfied, \<open>calls\<close> counts the requests made so far, and \<open>failed\<close> records that
  some request was refused. The block \<open>malloc\<close> returns holds arbitrary values,
  \<open>junk h c j\<close> at offset \<open>j\<close> of the block of request \<open>c\<close>; \<open>calloc\<close> returns zeros.
  Releasing a temporary that is held by value has no effect on any value and is not
  written out.
\<close>

type_synonym matrix = "dbl list list"

type_synonym addr = nat

record heap =
  objs :: "matrix option list"
  grants :: "nat \<Rightarrow> bool"
  junk :: "nat \<Rightarrow> nat \<Rightarrow> dbl"
  calls :: nat
  failed :: bool

definition request :: "heap \<Rightarrow> bool \<times> heap" where
  "request h =
     (grants h (calls h),
      h\<lparr>calls := Suc (calls h), failed := failed h \<or> \<not> grants h (calls h)\<rparr>)"

definition malloc_row :: "nat \<Rightarrow> heap \<Rightarrow> dbl list option \<times> heap" where
  "malloc_row w h =
     (case request h of (ok, h') \<Rightarrow>
        (if ok then Some (map (junk h (calls h)) [0..<w]) else None, h'))"

definition calloc_row :: "nat \<Rightarrow> heap \<Rightarrow> dbl list option \<times> heap" where
  "calloc_row w h =
     (case request h of (ok, h') \<Rightarrow> (if ok then Some (replicate w 0) else None, h'))"

definition get :: "heap \<Rightarrow> addr \<Rightarrow> matrix" where
  "get h a = the (objs h ! a)"

definition put :: "heap \<Rightarrow> addr \<Rightarrow> matrix \<Rightarrow> heap" where
  "put h a M = h\<lparr>objs := (objs h)[a := Some M]\<rparr>"

definition new_matrix :: "heap \<Rightarrow> matrix \<Rightarrow> addr \<times> heap" where
  "new_matrix h M = (length (objs h), h\<lparr>objs := objs h @ [Some M]\<rparr>)"

text \<open>\<open>free_c_array\<close> on a matrix of the store.\<close>

definition free_c_array :: "heap \<Rightarrow> addr \<Rightarrow> heap" where
  "free_c_array h a = h\<lparr>objs := (objs h)[a := None]\<rparr>"

text \<open>
  The row loop that the five producers share:
  \<^verbatim>\<open>for (i = 0; i < n; i++) { X[i] = alloc(...); if (!X[i]) { free...; return NULL; } fill row i }\<close>
  \<open>X\<close> is the list of the rows allocated and filled so far.
\<close>

fun row_loop :: "(heap \<Rightarrow> dbl list option \<times> heap) \<Rightarrow> (nat \<Rightarrow> dbl list \<Rightarrow> dbl list) \<Rightarrow>
    heap \<Rightarrow> nat list \<Rightarrow> matrix \<Rightarrow> matrix option \<times> heap" where
  "row_loop alloc fill h [] X = (Some X, h)"
| "row_loop alloc fill h (i # is) X =
     (case alloc h of
        (None, h') \<Rightarrow> (None, h')
      | (Some row, h') \<Rightarrow> row_loop alloc fill h' is (X @ [fill i row]))"

section \<open>Matrix utilities\<close>

definition matrix_multiply_row :: "matrix \<Rightarrow> matrix \<Rightarrow> nat \<Rightarrow> nat \<Rightarrow> nat \<Rightarrow> dbl list \<Rightarrow> dbl list" where
  "matrix_multiply_row A B m p i row =
     fold (\<lambda>j row.
             fold (\<lambda>k row. row[j := row ! j + A ! i ! k * B ! k ! j]) [0..<m] (row[j := 0]))
          [0..<p] row"

definition matrix_multiply :: "heap \<Rightarrow> matrix \<Rightarrow> matrix \<Rightarrow> nat \<Rightarrow> nat \<Rightarrow> nat \<Rightarrow> matrix option \<times> heap" where
  "matrix_multiply h A B n m p =
     (case request h of (ok, h') \<Rightarrow>
        if \<not> ok then (None, h')
        else row_loop (calloc_row p) (matrix_multiply_row A B m p) h' [0..<n] [])"

definition transpose_matrix_row :: "matrix \<Rightarrow> nat \<Rightarrow> nat \<Rightarrow> dbl list \<Rightarrow> dbl list" where
  "transpose_matrix_row A n i row = fold (\<lambda>j row. row[j := A ! j ! i]) [0..<n] row"

definition transpose_matrix :: "heap \<Rightarrow> matrix \<Rightarrow> nat \<Rightarrow> nat \<Rightarrow> matrix option \<times> heap" where
  "transpose_matrix h A n m =
     (case request h of (ok, h') \<Rightarrow>
        if \<not> ok then (None, h')
        else row_loop (malloc_row n) (transpose_matrix_row A n) h' [0..<m] [])"

definition calculate_frobenius_norm :: "matrix \<Rightarrow> matrix \<Rightarrow> nat \<Rightarrow> nat \<Rightarrow> dbl" where
  "calculate_frobenius_norm A B n k =
     fold (\<lambda>i sum.
             fold (\<lambda>j sum. let diff = A ! i ! j - B ! i ! j in sum + diff * diff) [0..<k] sum)
          [0..<n] 0"

text \<open>The loop of \<open>copy_matrix\<close> on the contents of \<open>dest\<close>, and \<open>copy_matrix\<close> on the store.\<close>

definition copy_loop :: "matrix \<Rightarrow> matrix \<Rightarrow> nat \<Rightarrow> nat \<Rightarrow> matrix" where
  "copy_loop dest src n k =
     fold (\<lambda>i dest. fold (\<lambda>j dest. dest[i := (dest ! i)[j := src ! i ! j]]) [0..<k] dest)
          [0..<n] dest"

definition copy_matrix :: "heap \<Rightarrow> addr \<Rightarrow> addr \<Rightarrow> nat \<Rightarrow> nat \<Rightarrow> heap" where
  "copy_matrix h dest src n k = put h dest (copy_loop (get h dest) (get h src) n k)"

text \<open>
  \<open>update_H\<close>: the four products are temporaries held by value; the loop over the
  entries writes into the matrix at address \<open>H\<close>. The result \<open>True\<close> is the C value 1,
  \<open>False\<close> is 0.
\<close>

definition update_loop :: "matrix \<Rightarrow> matrix \<Rightarrow> matrix \<Rightarrow> nat \<Rightarrow> nat \<Rightarrow> matrix" where
  "update_loop Hm WH HHtH n k =
     fold (\<lambda>i Hm.
             fold (\<lambda>j Hm. Hm[i := (Hm ! i)[j := Hm ! i ! j
                                   * (1 - beta + beta * (WH ! i ! j / HHtH ! i ! j))]])
                  [0..<k] Hm)
          [0..<n] Hm"

definition update_H :: "heap \<Rightarrow> addr \<Rightarrow> addr \<Rightarrow> nat \<Rightarrow> nat \<Rightarrow> bool \<times> heap" where
  "update_H h W H n k =
     (case matrix_multiply h (get h W) (get h H) n n k of
        (None, h1) \<Rightarrow> (False, h1)
      | (Some WH, h1) \<Rightarrow>
     (case transpose_matrix h1 (get h1 H) n k of
        (None, h2) \<Rightarrow> (False, h2)
      | (Some Ht, h2) \<Rightarrow>
     (case matrix_multiply h2 (get h2 H) Ht n k n of
        (None, h3) \<Rightarrow> (False, h3)
      | (Some HHt, h3) \<Rightarrow>
     (case matrix_multiply h3 HHt (get h3 H) n n k of
        (None, h4) \<Rightarrow> (False, h4)
      | (Some HHtH, h4) \<Rightarrow>
          (True, put h4 H (update_loop (get h4 H) WH HHtH n k))))))"

section \<open>Graph construction\<close>

text \<open>
  \<open>sym_c\<close> and \<open>norm_c\<close> are \<open>sym\<close> and \<open>norm\<close> of \<open>symnmf.c\<close>; the plain names are
  constants of HOL. The parameters \<open>n\<close>, \<open>d\<close> and \<open>k\<close> are C \<open>int\<close>s that the callers pass
  as non-negative sizes, hence natural numbers here.
\<close>

definition sym_row :: "matrix \<Rightarrow> nat \<Rightarrow> nat \<Rightarrow> nat \<Rightarrow> dbl list \<Rightarrow> dbl list" where
  "sym_row points n d i row =
     fold (\<lambda>j row.
             if i = j then row[j := 0]
             else let sum = fold (\<lambda>k sum. let diff = points ! i ! k - points ! j ! k
                                           in sum + diff * diff) [0..<d] 0
                  in row[j := exp_d (- sum / Fin 2)])
          [0..<n] row"

definition sym_c :: "heap \<Rightarrow> matrix \<Rightarrow> nat \<Rightarrow> nat \<Rightarrow> matrix option \<times> heap" where
  "sym_c h points n d =
     (case request h of (ok, h') \<Rightarrow>
        if \<not> ok then (None, h')
        else row_loop (malloc_row n) (sym_row points n d) h' [0..<n] [])"

definition ddg_row :: "matrix \<Rightarrow> nat \<Rightarrow> nat \<Rightarrow> dbl list \<Rightarrow> dbl list" where
  "ddg_row similarity n i row = fold (\<lambda>j row. row[i := row ! i + similarity ! i ! j]) [0..<n] row"

definition ddg :: "heap \<Rightarrow> matrix \<Rightarrow> nat \<Rightarrow> nat \<Rightarrow> matrix option \<times> heap" where
  "ddg h points n d =
     (case sym_c h points n d of
        (None, h1) \<Rightarrow> (None, h1)
      | (Some similarity, h1) \<Rightarrow>
     (case request h1 of (ok, h2) \<Rightarrow>
        if \<not> ok then (None, h2)
        else row_loop (calloc_row n) (ddg_row similarity n) h2 [0..<n] []))"

definition norm_degree :: "matrix \<Rightarrow> nat \<Rightarrow> dbl list \<Rightarrow> dbl list" where
  "norm_degree similarity n degree_diag =
     fold (\<lambda>i dg. fold (\<lambda>j dg. dg[i := dg ! i + similarity ! i ! j]) [0..<n] dg)
          [0..<n] degree_diag"

definition norm_row :: "matrix \<Rightarrow> dbl list \<Rightarrow> nat \<Rightarrow> nat \<Rightarrow> dbl list \<Rightarrow> dbl list" where
  "norm_row similarity degree_diag n i row =
     fold (\<lambda>j row. row[j := similarity ! i ! j / sqrt_d (degree_diag ! i * degree_diag ! j)])
          [0..<n] row"

definition norm_c :: "heap \<Rightarrow> matrix \<Rightarrow> nat \<Rightarrow> nat \<Rightarrow> matrix option \<times> heap" where
  "norm_c h points n d =
     (case sym_c h points n d of
        (None, h1) \<Rightarrow> (None, h1)
      | (Some similarity, h1) \<Rightarrow>
     (case calloc_row n h1 of
        (None, h2) \<Rightarrow> (None, h2)
      | (Some degree_diag0, h2) \<Rightarrow>
     (let degree_diag = norm_degree similarity n degree_diag0 in
      case request h2 of (ok, h3) \<Rightarrow>
        if \<not> ok then (None, h3)
        else row_loop (malloc_row n) (norm_row similarity degree_diag n) h3 [0..<n] [])))"

section \<open>Factorization\<close>

text \<open>
  The allocation loop of \<open>symnmf\<close> allocates row \<open>i\<close> of \<open>H_prev\<close> and then row \<open>i\<close> of
  \<open>result\<close>. The two matrices enter the store, at fresh addresses, once all their rows
  exist; if a request is refused, what was allocated is released and neither does.
\<close>

fun symnmf_rows :: "heap \<Rightarrow> nat \<Rightarrow> nat list \<Rightarrow> matrix \<Rightarrow> matrix \<Rightarrow> (matrix \<times> matrix) option \<times> heap" where
  "symnmf_rows h k [] H_prev result = (Some (H_prev, result), h)"
| "symnmf_rows h k (i # is) H_prev result =
     (case malloc_row k h of
        (None, h1) \<Rightarrow> (None, h1)
      | (Some row1, h1) \<Rightarrow>
     (case malloc_row k h1 of
        (None, h2) \<Rightarrow> (None, h2)
      | (Some row2, h2) \<Rightarrow> symnmf_rows h2 k is (H_prev @ [row1]) (result @ [row2])))"

text \<open>
  The main loop. \<open>False\<close>: \<open>update_H\<close> failed and \<open>symnmf\<close> returns \<open>NULL\<close> from inside the
  loop, after releasing both matrices. \<open>True\<close>: the loop was left by \<open>break\<close> or because
  \<open>iter\<close> reached \<open>MAX_ITER\<close>.
\<close>

fun symnmf_loop :: "heap \<Rightarrow> addr \<Rightarrow> addr \<Rightarrow> addr \<Rightarrow> nat \<Rightarrow> nat \<Rightarrow> nat list \<Rightarrow> bool \<times> heap" where
  "symnmf_loop h W result H_prev n k [] = (True, h)"
| "symnmf_loop h W result H_prev n k (iter # iters) =
     (let h1 = copy_matrix h H_prev result n k in
      case update_H h1 W result n k of (ok, h2) \<Rightarrow>
        if \<not> ok then (False, free_c_array (free_c_array h2 H_prev) result)
        else if calculate_frobenius_norm (get h2 result) (get h2 H_prev) n k < EPSILON
        then (True, h2)
        else symnmf_loop h2 W result H_prev n k iters)"

text \<open>
  What a call of \<open>symnmf\<close> comes to: \<open>NULL\<close>, a pointer, or no defined behaviour. When the
  request for the row pointers of \<open>result\<close> is refused, \<open>symnmf\<close> calls
  \<open>free_c_array(H_prev, n)\<close> on the array \<open>malloc\<close> has just returned. Its \<open>n\<close> row pointers
  were never assigned; \<open>free_c_array\<close> reads each of them and passes every non-null one to
  \<open>free\<close>, for which C defines no behaviour (unless all of them happen to be null).
  With \<open>n = 0\<close> no row pointer is read and \<open>NULL\<close> is returned. Every other call of
  \<open>free_c_array\<close> in the program is given the number of rows that have been allocated.
\<close>

datatype ret = Null | Ptr addr | Undefined

definition symnmf :: "heap \<Rightarrow> addr \<Rightarrow> addr \<Rightarrow> nat \<Rightarrow> nat \<Rightarrow> ret \<times> heap" where
  "symnmf h W H n k =
     (case request h of (ok1, h1) \<Rightarrow>
        if \<not> ok1 then (Null, h1)
        else
     (case request h1 of (ok2, h2) \<Rightarrow>
        if \<not> ok2 then (if n = 0 then Null else Undefined, h2)
        else
     (case symnmf_rows h2 k [0..<n] [] [] of
        (None, h3) \<Rightarrow> (Null, h3)
      | (Some (H_prev_rows, result_rows), h3) \<Rightarrow>
     (case new_matrix h3 H_prev_rows of (H_prev, h4) \<Rightarrow>
     (case new_matrix h4 result_rows of (result, h5) \<Rightarrow>
     (let h6 = copy_matrix h5 result H n k in
     (case symnmf_loop h6 W result H_prev n k [0..<MAX_ITER] of (ok, h7) \<Rightarrow>
        if \<not> ok then (Null, h7)
        else (Ptr result, free_c_array h7 H_prev))))))))"

section \<open>The operations as the specification words them\<close>

text \<open>
  Closed forms of what each operation is specified to return, with every sum taken in
  index order from \<open>0.0\<close> as the code takes it. \<open>dims M n k\<close> says that \<open>M\<close> is an
  \<open>n\<close> by \<open>k\<close> matrix, \<open>holds h a M\<close> that address \<open>a\<close> of the store is the live matrix \<open>M\<close>.
\<close>

definition dims :: "matrix \<Rightarrow> nat \<Rightarrow> nat \<Rightarrow> bool" where
  "dims M n k = (length M = n \<and> list_all (\<lambda>row. length row = k) M)"

definition holds :: "heap \<Rightarrow> addr \<Rightarrow> matrix \<Rightarrow> bool" where
  "holds h a M = (a < length (objs h) \<and> objs h ! a = Some M)"

fun is_finite :: "dbl \<Rightarrow> bool" where
  "is_finite (Fin a) = True"
| "is_finite x = False"

definition dot :: "matrix \<Rightarrow> matrix \<Rightarrow> nat \<Rightarrow> nat \<Rightarrow> nat \<Rightarrow> dbl" where
  "dot A B m i j = fold (\<lambda>k c. c + A ! i ! k * B ! k ! j) [0..<m] 0"

definition mat_mul :: "matrix \<Rightarrow> matrix \<Rightarrow> nat \<Rightarrow> nat \<Rightarrow> nat \<Rightarrow> matrix" where
  "mat_mul A B n m p = map (\<lambda>i. map (\<lambda>j. dot A B m i j) [0..<p]) [0..<n]"

definition mat_transpose :: "matrix \<Rightarrow> nat \<Rightarrow> nat \<Rightarrow> matrix" where
  "mat_transpose A n m = map (\<lambda>i. map (\<lambda>j. A ! j ! i) [0..<n]) [0..<m]"

text \<open>The multiplicative update rule: the factor of entry \<open>(i, j)\<close> and the updated matrix.\<close>

definition update_factor :: "matrix \<Rightarrow> matrix \<Rightarrow> nat \<Rightarrow> nat \<Rightarrow> nat \<Rightarrow> nat \<Rightarrow> dbl" where
  "update_factor W H n k i j =
     (let WH = mat_mul W H n n k;
          Ht = mat_transpose H n k;
          HHt = mat_mul H Ht n k n;
          HHtH = mat_mul HHt H n n k
      in 1 - beta + beta * (WH ! i ! j / HHtH ! i ! j))"

definition update_rule :: "matrix \<Rightarrow> matrix \<Rightarrow> nat \<Rightarrow> nat \<Rightarrow> matrix" where
  "update_rule W H n k =
     map (\<lambda>i. map (\<lambda>j. H ! i ! j * update_factor W H n k i j) [0..<k]) [0..<n]"

text \<open>The iterates of the factorization.\<close>

fun factor_iter :: "matrix \<Rightarrow> matrix \<Rightarrow> nat \<Rightarrow> nat \<Rightarrow> nat \<Rightarrow> matrix" where
  "factor_iter W H n k 0 = H"
| "factor_iter W H n k (Suc t) = update_rule W (factor_iter W H n k t) n k"

text \<open>
  The squared Frobenius norm of the difference of two \<open>n\<close> by \<open>k\<close> matrices: the entries
  of \<open>A - B\<close> row after row, and the sum of their squares from the left. \<open>delta\<close> is that
  of iterate \<open>t\<close> and the iterate before it.
\<close>

definition entries_diff :: "matrix \<Rightarrow> matrix \<Rightarrow> nat \<Rightarrow> nat \<Rightarrow> dbl list" where
  "entries_diff A B n k = concat (map (\<lambda>i. map (\<lambda>j. A ! i ! j - B ! i ! j) [0..<k]) [0..<n])"

definition sum_squares :: "dbl list \<Rightarrow> dbl" where
  "sum_squares xs = foldl (+) 0 (map (\<lambda>x. x * x) xs)"

definition delta :: "matrix \<Rightarrow> matrix \<Rightarrow> nat \<Rightarrow> nat \<Rightarrow> nat \<Rightarrow> dbl" where
  "delta W H n k t =
     sum_squares (entries_diff (factor_iter W H n k t) (factor_iter W H n k (t - 1)) n k)"

text \<open>Similarity by the double loop over all ordered pairs, row sums, degree, normalization.\<close>

definition sq_dist :: "matrix \<Rightarrow> nat \<Rightarrow> nat \<Rightarrow> nat \<Rightarrow> dbl" where
  "sq_dist points d i j =
     fold (\<lambda>k s. s + (points ! i ! k - points ! j ! k) * (points ! i ! k - points ! j ! k))
          [0..<d] 0"

definition similarity :: "matrix \<Rightarrow> nat \<Rightarrow> nat \<Rightarrow> matrix" where
  "similarity points n d =
     map (\<lambda>i. map (\<lambda>j. if i = j then 0 else exp_d (- sq_dist points d i j / Fin 2)) [0..<n])
         [0..<n]"

definition row_sum :: "matrix \<Rightarrow> nat \<Rightarrow> nat \<Rightarrow> dbl" where
  "row_sum A n i = fold (\<lambda>j s. s + A ! i ! j) [0..<n] 0"

definition degree :: "matrix \<Rightarrow> nat \<Rightarrow> nat \<Rightarrow> matrix" where
  "degree points n d =
     map (\<lambda>i. map (\<lambda>j. if i = j then row_sum (similarity points n d) n i else 0) [0..<n])
         [0..<n]"

definition normalized :: "matrix \<Rightarrow> nat \<Rightarrow> nat \<Rightarrow> matrix" where
  "normalized points n d =
     (let A = similarity points n d; deg = map (row_sum A n) [0..<n]
      in map (\<lambda>i. map (\<lambda>j. A ! i ! j / sqrt_d (deg ! i * deg ! j)) [0..<n]) [0..<n])"

text \<open>
  What the proofs need of a row allocator: it leaves the store alone, it records a
  refusal exactly when it returns \<open>NULL\<close>, and a block it returns satisfies \<open>P\<close>.
\<close>

definition allocates :: "(dbl list \<Rightarrow> bool) \<Rightarrow> (heap \<Rightarrow> dbl list option \<times> heap) \<Rightarrow> bool" where
  "allocates P alloc =
     (\<forall>h. objs (snd (alloc h)) = objs h
        \<and> failed (snd (alloc h)) = (failed h \<or> fst (alloc h) = None)
        \<and> (\<forall>row. fst (alloc h) = Some row \<longrightarrow> P row))"

text \<open>
  Stores for the examples, each with an allocator that grants every request: an empty
  store, and stores that hold \<open>W\<close> at address 0 and \<open>H\<close> at address 1.
\<close>

definition heap_empty :: heap where
  "heap_empty = \<lparr>objs = [], grants = (\<lambda>c. True), junk = (\<lambda>c j. NaN), calls = 0, failed = False\<rparr>"

text \<open>\<open>W = [[0, 1], [1, 0]]\<close> and \<open>H = [[1, 0], [0, 1]]\<close>.\<close>

definition heap_swap :: heap where
  "heap_swap =
     \<lparr>objs = [Some [[Fin 0, Fin 1], [Fin 1, Fin 0]], Some [[Fin 1, Fin 0], [Fin 0, Fin 1]]],
      grants = (\<lambda>c. True), junk = (\<lambda>c j. NaN), calls = 0, failed = False\<rparr>"

text \<open>\<open>W = [[1]]\<close> and \<open>H = [[1]]\<close>, a fixed point of the update.\<close>

definition heap_unit :: heap where
  "heap_unit =
     \<lparr>objs = [Some [[Fin 1]], Some [[Fin 1]]],
      grants = (\<lambda>c. True), junk = (\<lambda>c j. NaN), calls = 0, failed = False\<rparr>"

text \<open>
  \<open>W = [[1]]\<close> and \<open>H = [[2]]\<close>: the update is Newton's iteration for the square root
  of 1, started at 2.
\<close>

definition heap_newton :: heap where
  "heap_newton =
     \<lparr>objs = [Some [[Fin 1]], Some [[Fin 2]]],
      grants = (\<lambda>c. True), junk = (\<lambda>c j. NaN), calls = 0, failed = False\<rparr>"

text \<open>The store of \<open>heap_swap\<close> with an allocator that refuses its fifth request.\<close>

definition heap_short :: heap where
  "heap_short = heap_swap\<lparr>grants := (\<lambda>c. c < 4)\<rparr>"

text \<open>
  \<open>W = [[0, 3 c^2], [3 c^2, 0]]\<close> and \<open>H = [[0, c], [c, c]]\<close> with \<open>c = 1/128\<close>: \<open>H\<close>
  has a zero entry and no denominator of the update is zero.
\<close>

definition heap_zero :: heap where
  "heap_zero =
     \<lparr>objs = [Some [[Fin 0, Fin (3 / 16384)], [Fin (3 / 16384), Fin 0]],
              Some [[Fin 0, Fin (1 / 128)], [Fin (1 / 128), Fin (1 / 128)]]],
      grants = (\<lambda>c. True), junk = (\<lambda>c j. NaN), calls = 0, failed = False\<rparr>"

text \<open>A coordinate close to zero: the double \<open>2^-30\<close>.\<close>

definition small :: real where
  "small = 1 / 2 ^ 30"

text \<open>The stores of \<open>heap_unit\<close> and \<open>heap_swap\<close> with an allocator that refuses its second request.\<close>

definition heap_refuse_unit :: heap where
  "heap_refuse_unit = heap_unit\<lparr>grants := (\<lambda>c. c \<noteq> 1)\<rparr>"


section \<open>Lemmas\<close>

subsection \<open>Rounding to the nearest double\<close>

lemma round_even_of_int [simp]: "round_even (of_int n) = n"
  by (simp add: round_even_def)

lemma round_even_mono:
  assumes "x \<le> y"
  shows "round_even x \<le> round_even y"
proof (cases "\<lfloor>x\<rfloor> = \<lfloor>y\<rfloor>")
  case True
  with assms show ?thesis by (auto simp: round_even_def)
next
  case False
  with floor_mono[OF assms] have "\<lfloor>x\<rfloor> + 1 \<le> \<lfloor>y\<rfloor>" by simp
  moreover have "round_even x \<le> \<lfloor>x\<rfloor> + 1" by (simp add: round_even_def)
  moreover have "\<lfloor>y\<rfloor> \<le> round_even y" by (simp add: round_even_def)
  ultimately show ?thesis by linarith
qed

lemma round_even_uminus: "round_even (- x) = - round_even x"
proof (cases "x \<in> \<int>")
  case True
  then obtain n where "x = of_int n" by (auto elim: Ints_cases)
  then show ?thesis using round_even_of_int[of "- n"] by simp
next
  case False
  then have "x \<noteq> of_int \<lfloor>x\<rfloor>" by (metis Ints_of_int)
  then have f: "\<lfloor>- x\<rfloor> = - \<lfloor>x\<rfloor> - 1"
    by (simp add: floor_minus ceiling_altdef)
  show ?thesis unfolding round_even_def f by auto
qed

lemma round_even_nonneg: "0 \<le> x \<Longrightarrow> 0 \<le> round_even x"
  using round_even_mono[of 0 x] round_even_of_int[of 0] by simp

lemma ulp_pos [simp]: "0 < ulp y"
  by (simp add: ulp_def)

lemma ulp_uminus [simp]: "ulp (- y) = ulp y"
  by (simp add: ulp_def expo_def)

lemma nearest_uminus: "nearest (- y) = - nearest y"
  by (simp add: nearest_def round_even_uminus)

lemma nearest_0 [simp]: "nearest 0 = 0"
  by (simp add: nearest_def)

lemma nearest_nonneg: "0 \<le> y \<Longrightarrow> 0 \<le> nearest y"
  using round_even_nonneg[of "y / ulp y"] ulp_pos[of y]
  by (simp add: nearest_def del: ulp_pos)

text \<open>The binade of \<open>y\<close>: \<open>y / ulp y\<close> has at most 53 bits, and exactly 53 above \<open>2^-1022\<close>.\<close>

lemma floor_log_bounds:
  assumes "y \<noteq> 0"
  shows "2 powr of_int \<lfloor>log 2 \<bar>y\<bar>\<rfloor> \<le> \<bar>y\<bar>"
    and "\<bar>y\<bar> < 2 powr of_int (\<lfloor>log 2 \<bar>y\<bar>\<rfloor> + 1)"
  using assms floor_log_eq_powr_iff[of "\<bar>y\<bar>" 2 "\<lfloor>log 2 \<bar>y\<bar>\<rfloor>"] by simp_all

lemma expo_upper:
  assumes "y \<noteq> 0"
  shows "\<bar>y\<bar> < 2 powr of_int (expo y + 53)"
proof -
  have "\<lfloor>log 2 \<bar>y\<bar>\<rfloor> + 1 \<le> expo y + 53" by (simp add: expo_def)
  then have "(2::real) powr of_int (\<lfloor>log 2 \<bar>y\<bar>\<rfloor> + 1) \<le> 2 powr of_int (expo y + 53)"
    by (intro powr_mono) simp_all
  with floor_log_bounds(2)[OF assms] show ?thesis by linarith
qed

lemma expo_lower:
  assumes "y \<noteq> 0" and "- 1074 < expo y"
  shows "2 powr of_int (expo y + 52) \<le> \<bar>y\<bar>"
proof -
  from assms(2) have "expo y + 52 = \<lfloor>log 2 \<bar>y\<bar>\<rfloor>"
    by (simp add: expo_def max_def split: if_splits)
  with floor_log_bounds(1)[OF assms(1)] show ?thesis by simp
qed

lemma expo_mono:
  assumes "x \<noteq> 0" and "\<bar>x\<bar> \<le> \<bar>y\<bar>"
  shows "expo x \<le> expo y"
proof -
  from assms have "log 2 \<bar>x\<bar> \<le> log 2 \<bar>y\<bar>" by simp
  then have "\<lfloor>log 2 \<bar>x\<bar>\<rfloor> \<le> \<lfloor>log 2 \<bar>y\<bar>\<rfloor>" by (rule floor_mono)
  then show ?thesis by (simp add: expo_def)
qed

lemma expo_ge: "- 1074 \<le> expo y"
  by (simp add: expo_def)

lemma scaled_upper:
  assumes "y \<noteq> 0"
  shows "\<bar>y / ulp y\<bar> < 2 ^ 53"
proof -
  have "\<bar>y\<bar> < 2 powr of_int (expo y + 53)" using assms by (rule expo_upper)
  also have "\<dots> = ulp y * 2 ^ 53" by (simp add: ulp_def powr_add)
  finally show ?thesis using ulp_pos[of y] by (simp add: field_simps del: ulp_pos)
qed

lemma nearest_upper:
  assumes "0 < y"
  shows "nearest y \<le> ulp y * 2 ^ 53"
proof -
  have "y / ulp y \<le> \<bar>y / ulp y\<bar>" by (rule abs_ge_self)
  with scaled_upper[of y] assms have "y / ulp y \<le> of_int (2 ^ 53)" by simp
  then have "round_even (y / ulp y) \<le> round_even (of_int (2 ^ 53))" by (rule round_even_mono)
  then have "round_even (y / ulp y) \<le> 2 ^ 53" unfolding round_even_of_int .
  then have "real_of_int (round_even (y / ulp y)) \<le> of_int (2 ^ 53)" by (simp only: of_int_le_iff)
  then have "real_of_int (round_even (y / ulp y)) \<le> 2 ^ 53" by simp
  then show ?thesis using assms ulp_pos[of y] by (simp add: nearest_def del: ulp_pos)
qed

lemma nearest_lower:
  assumes "0 < y" and "- 1074 < expo y"
  shows "ulp y * 2 ^ 52 \<le> nearest y"
proof -
  have "2 powr of_int (expo y + 52) \<le> \<bar>y\<bar>" using assms by (intro expo_lower) simp_all
  moreover have "2 powr of_int (expo y + 52) = ulp y * 2 ^ 52" by (simp add: ulp_def powr_add)
  ultimately have "of_int (2 ^ 52) \<le> y / ulp y"
    using assms ulp_pos[of y] by (simp add: field_simps del: ulp_pos)
  then have "round_even (of_int (2 ^ 52)) \<le> round_even (y / ulp y)" by (rule round_even_mono)
  then have "2 ^ 52 \<le> round_even (y / ulp y)" unfolding round_even_of_int .
  then have "of_int (2 ^ 52) \<le> real_of_int (round_even (y / ulp y))" by (simp only: of_int_le_iff)
  then have "2 ^ 52 \<le> real_of_int (round_even (y / ulp y))" by simp
  then show ?thesis using assms ulp_pos[of y] by (simp add: nearest_def del: ulp_pos)
qed

text \<open>Rounding is monotone.\<close>

lemma nearest_mono_pos:
  assumes "0 < x" and "x \<le> y"
  shows "nearest x \<le> nearest y"
proof -
  from assms have y: "0 < y" by simp
  have e: "expo x \<le> expo y" using assms by (intro expo_mono) simp_all
  show ?thesis
  proof (cases "expo x = expo y")
    case True
    then have u: "ulp x = ulp y" by (simp add: ulp_def)
    have "x / ulp y \<le> y / ulp y"
      using assms ulp_pos[of y] by (simp add: divide_right_mono del: ulp_pos)
    from round_even_mono[OF this] show ?thesis
      using assms y u ulp_pos[of y] by (simp add: nearest_def del: ulp_pos)
  next
    case False
    with e have lt: "expo x + 1 \<le> expo y" by simp
    with expo_ge[of x] have "- 1074 < expo y" by linarith
    from nearest_lower[OF y this] have "ulp y * 2 ^ 52 \<le> nearest y" .
    moreover have "ulp x * 2 ^ 53 \<le> ulp y * 2 ^ 52"
    proof -
      have "ulp x * 2 = 2 powr of_int (expo x + 1)" by (simp add: ulp_def powr_add)
      also have "\<dots> \<le> ulp y" unfolding ulp_def using lt by (intro powr_mono) simp_all
      finally show ?thesis by simp
    qed
    ultimately show ?thesis using nearest_upper[OF assms(1)] by linarith
  qed
qed

lemma nearest_mono:
  assumes "x \<le> y"
  shows "nearest x \<le> nearest y"
proof -
  consider "0 < x" | "x \<le> 0" "0 \<le> y" | "y < 0" by linarith
  then show ?thesis
  proof cases
    case 1
    then show ?thesis using assms by (rule nearest_mono_pos)
  next
    case 2
    from nearest_nonneg[of "- x"] 2(1) have "nearest x \<le> 0" by (simp add: nearest_uminus)
    with nearest_nonneg[OF 2(2)] show ?thesis by simp
  next
    case 3
    with assms have "0 < - y" "- y \<le> - x" by simp_all
    from nearest_mono_pos[OF this] show ?thesis by (simp add: nearest_uminus)
  qed
qed

text \<open>A number with at most 53 bits and an exponent in the range is a double.\<close>

lemma nearest_grid:
  assumes "y = of_int m * ulp y"
  shows "nearest y = y"
proof -
  from assms ulp_pos[of y] have q: "y / ulp y = of_int m"
    by (simp add: field_simps del: ulp_pos)
  have "nearest y = ulp y * of_int (round_even (y / ulp y))"
    using round_even_of_int[of 0] by (simp add: nearest_def)
  also have "\<dots> = ulp y * of_int m" by (simp only: q round_even_of_int)
  also have "\<dots> = y" by (metis assms mult.commute)
  finally show ?thesis .
qed

lemma nearest_dyadic:
  assumes "\<bar>m\<bar> < 2 ^ 53" and "- 1074 \<le> e"
  shows "nearest (of_int m * 2 powr of_int e) = of_int m * 2 powr of_int e"
proof (cases "m = 0")
  case True
  then show ?thesis by simp
next
  case False
  let ?y = "of_int m * 2 powr of_int e :: real"
  have y0: "?y \<noteq> 0" using False by simp
  have "\<bar>?y\<bar> < 2 ^ 53 * 2 powr of_int e"
  proof -
    have "\<bar>real_of_int m\<bar> < 2 ^ 53"
      using assms(1) by (metis of_int_abs of_int_less_iff of_int_numeral of_int_power)
    then show ?thesis by (simp add: abs_mult)
  qed
  also have "\<dots> = 2 powr of_int (e + 53)" by (simp add: powr_add)
  finally have "log 2 \<bar>?y\<bar> < of_int (e + 53)"
    using y0 by (subst log_less_iff) simp_all
  then have "\<lfloor>log 2 \<bar>?y\<bar>\<rfloor> < e + 53" by (simp add: floor_less_iff)
  with assms(2) have le: "expo ?y \<le> e" by (simp add: expo_def)
  define k where "k = nat (e - expo ?y)"
  have "(2::real) powr of_int e = 2 powr of_int (expo ?y) * 2 powr of_int (int k)"
    using le by (simp add: k_def powr_add[symmetric])
  also have "2 powr of_int (int k) = (2::real) ^ k" by (simp add: powr_realpow)
  finally have "?y = of_int (m * 2 ^ k) * ulp ?y" by (simp add: ulp_def mult.commute)
  then show ?thesis by (rule nearest_grid)
qed

lemma nearest_exact:
  assumes "y * 2 ^ k \<in> \<int>" and "\<bar>y\<bar> * 2 ^ k < 2 ^ 53" and "k \<le> 1074"
  shows "nearest y = y"
proof -
  from assms(1) obtain m where m: "y * 2 ^ k = of_int m" by (auto elim: Ints_cases)
  then have y: "y = of_int m * 2 powr of_int (- int k)"
    by (simp add: powr_minus powr_realpow field_simps)
  have "\<bar>real_of_int m\<bar> < 2 ^ 53" using assms(2) m by (simp add: abs_mult flip: m)
  then have "\<bar>m\<bar> < 2 ^ 53"
    by (metis of_int_abs of_int_less_iff of_int_numeral of_int_power)
  from nearest_dyadic[OF this, of "- int k"] assms(3) y show ?thesis by simp
qed

text \<open>The doubles of one binade are the multiples of one power of two.\<close>

lemma powr_neg_nat: "(2::real) powr of_int (- int k) = 1 / 2 ^ k"
  by (simp add: powr_minus powr_realpow field_simps)

lemma floor_log_lo:
  assumes "1 / 2 ^ Suc k \<le> \<bar>y\<bar>" and "\<bar>y\<bar> < 1 / 2 ^ k"
  shows "\<lfloor>log 2 \<bar>y\<bar>\<rfloor> = - int (Suc k)"
proof -
  have y: "0 < \<bar>y\<bar>" using assms(1) by (smt (verit) divide_pos_pos zero_less_power)
  have a: "(2::real) powr of_int (- int (Suc k)) = 1 / 2 ^ Suc k"
    by (rule powr_neg_nat)
  have "- int (Suc k) + 1 = - int k" by simp
  then have b: "(2::real) powr of_int (- int (Suc k) + 1) = 1 / 2 ^ k"
    by (simp only: powr_neg_nat)
  show ?thesis
    using assms floor_log_eq_powr_iff[of "\<bar>y\<bar>" 2 "- int (Suc k)"] y
    unfolding a b by simp
qed

lemma floor_log_hi:
  assumes "2 ^ k \<le> \<bar>y\<bar>" and "\<bar>y\<bar> < 2 ^ Suc k"
  shows "\<lfloor>log 2 \<bar>y\<bar>\<rfloor> = int k"
proof -
  have y: "0 < \<bar>y\<bar>" using assms(1) by (smt (verit) zero_less_power)
  have a: "(2::real) powr of_int (int k) = 2 ^ k" by (simp add: powr_realpow)
  have b: "(2::real) powr of_int (int k + 1) = 2 ^ Suc k"
    using powr_realpow[of 2 "Suc k"] by (simp add: add.commute)
  show ?thesis
    using assms floor_log_eq_powr_iff[of "\<bar>y\<bar>" 2 "int k"] y
    unfolding a b by simp
qed

lemma nearest_binade_lo:
  assumes "1 / 2 ^ Suc k \<le> \<bar>y\<bar>" and "\<bar>y\<bar> < 1 / 2 ^ k" and "k \<le> 1021"
  shows "nearest y = of_int (round_even (y * 2 ^ (k + 53))) / 2 ^ (k + 53)"
proof -
  have y: "y \<noteq> 0" using assms(1) by (smt (verit) divide_pos_pos zero_less_power)
  have "expo y = - int (k + 53)"
    using assms(3) by (simp add: expo_def floor_log_lo[OF assms(1,2)])
  then have "ulp y = 1 / 2 ^ (k + 53)"
    by (simp only: ulp_def powr_neg_nat)
  then show ?thesis using y by (simp add: nearest_def)
qed

lemma nearest_binade_hi:
  assumes "2 ^ k \<le> \<bar>y\<bar>" and "\<bar>y\<bar> < 2 ^ Suc k" and "k \<le> 52"
  shows "nearest y = of_int (round_even (y * 2 ^ (52 - k))) / 2 ^ (52 - k)"
proof -
  have y: "y \<noteq> 0" using assms(1) by (smt (verit) zero_less_power)
  have "expo y = - int (52 - k)"
    using assms(3) by (simp add: expo_def floor_log_hi[OF assms(1,2)])
  then have "ulp y = 1 / 2 ^ (52 - k)"
    by (simp only: ulp_def powr_neg_nat)
  then show ?thesis using y by (simp add: nearest_def)
qed

text \<open>Below half the least positive double, \<open>2^-1074\<close>, everything rounds to zero.\<close>

lemma nearest_underflow:
  assumes "\<bar>y\<bar> < 1 / 2 ^ 1075"
  shows "nearest y = 0"
proof -
  have pos: "nearest x = 0" if x: "0 < x" "x < 1 / 2 ^ 1075" for x :: real
  proof -
    have "x < 2 powr of_int (- int 1075)" using x(2) by (simp only: powr_neg_nat)
    then have "log 2 \<bar>x\<bar> < of_int (- int 1075)"
      using x(1) by (simp add: log_less_iff)
    then have "\<lfloor>log 2 \<bar>x\<bar>\<rfloor> < - 1075" by (simp add: floor_less_iff)
    then have "expo x = - int 1074" unfolding expo_def by linarith
    then have u: "ulp x = 1 / 2 ^ 1074" by (simp only: ulp_def powr_neg_nat)
    have "x * 2 ^ 1074 < 1 / 2 ^ 1075 * 2 ^ 1074" using x(2) by (intro mult_strict_right_mono) simp_all
    also have "\<dots> = 1 / (2::real)" by (simp add: power_add[symmetric, of _ _ 1074])
    finally have h: "x * 2 ^ 1074 < 1 / 2" "0 \<le> x * 2 ^ 1074" using x(1) by simp_all
    then have "\<lfloor>x * 2 ^ 1074\<rfloor> = 0" by (simp add: floor_eq_iff)
    with h have "round_even (x * 2 ^ 1074) = 0" by (simp add: round_even_def)
    then show ?thesis by (simp add: nearest_def u)
  qed
  consider "y = 0" | "0 < y" | "0 < - y" by linarith
  then show ?thesis
  proof cases
    case 1
    then show ?thesis by simp
  next
    case 2
    with assms show ?thesis by (intro pos) simp_all
  next
    case 3
    with assms have "nearest (- y) = 0" by (intro pos) simp_all
    then show ?thesis by (simp add: nearest_uminus)
  qed
qed

subsection \<open>Arithmetic on doubles\<close>

lemma huge_gt: "2 ^ 53 < huge"
  unfolding huge_def by (rule power_strict_increasing) simp_all

lemma huge_pos: "0 < huge"
  by (simp add: huge_def)

lemma rnd_0 [simp]: "rnd 0 = Fin 0"
  using huge_pos by (simp add: rnd_def)

lemma rnd_exact:
  assumes "y * 2 ^ k \<in> \<int>" and "\<bar>y\<bar> * 2 ^ k < 2 ^ 53" and "k \<le> 1074"
  shows "rnd y = Fin y"
proof -
  have "1 \<le> (2::real) ^ k" by simp
  then have "\<bar>y\<bar> * 1 \<le> \<bar>y\<bar> * 2 ^ k" by (intro mult_left_mono) simp_all
  with assms(2) huge_gt have "\<bar>y\<bar> < huge" by simp
  then show ?thesis by (simp add: rnd_def nearest_exact[OF assms])
qed

lemma rnd_uminus: "rnd (- y) = - rnd y"
  using huge_pos by (cases "y = 0") (auto simp: rnd_def nearest_uminus)

lemma rnd_not_NaN [simp]: "rnd y \<noteq> NaN"
  by (simp add: rnd_def)

lemma rnd_ge:
  assumes "0 \<le> c" and "c \<le> y" and "nearest c = c"
  shows "rnd y = PInf \<or> (\<exists>r. rnd y = Fin r \<and> c \<le> r)"
proof (cases "huge \<le> \<bar>nearest y\<bar>")
  case True
  moreover from True huge_pos have "y \<noteq> 0" by auto
  ultimately show ?thesis using assms(1,2) by (simp add: rnd_def)
next
  case False
  with nearest_mono[OF assms(2)] assms(3) show ?thesis by (simp add: rnd_def)
qed

lemma rnd_nonneg:
  assumes "0 \<le> y"
  shows "rnd y = PInf \<or> (\<exists>r. rnd y = Fin r \<and> 0 \<le> r)"
  using rnd_ge[OF _ assms] by simp

lemma rnd_le:
  assumes "0 \<le> y" and "y \<le> c" and "nearest c = c" and "c < huge"
  shows "\<exists>r. rnd y = Fin r \<and> 0 \<le> r \<and> r \<le> c"
proof -
  have "0 \<le> nearest y" using assms(1) by (rule nearest_nonneg)
  moreover have "nearest y \<le> c" using nearest_mono[OF assms(2)] assms(3) by simp
  ultimately show ?thesis using assms(4) by (simp add: rnd_def)
qed

lemma nearest_1 [simp]: "nearest 1 = 1"
  by (rule nearest_exact[where k=0]) simp_all

lemma rnd_unit:
  assumes "0 \<le> y" and "y \<le> 1"
  shows "\<exists>r. rnd y = Fin r \<and> 0 \<le> r \<and> r \<le> 1"
  using assms huge_gt by (intro rnd_le) simp_all

text \<open>Up to \<open>2^53\<close> in magnitude nothing overflows.\<close>

lemma rnd_bounded:
  assumes "\<bar>y\<bar> \<le> 2 ^ 53"
  shows "rnd y = Fin (nearest y)"
proof -
  define c :: real where "c = 2 ^ 53"
  have f: "nearest c = c"
    unfolding c_def using nearest_dyadic[of "2 ^ 52" 1] by simp
  from assms have "- c \<le> y" "y \<le> c" by (simp_all add: c_def)
  from nearest_mono[OF this(1)] nearest_mono[OF this(2)]
  have "\<bar>nearest y\<bar> \<le> c" by (simp add: nearest_uminus f abs_le_iff)
  moreover have "c < huge" unfolding c_def by (rule huge_gt)
  ultimately show ?thesis by (simp add: rnd_def)
qed

lemma rnd_binade_lo:
  assumes "1 / 2 ^ Suc k \<le> \<bar>y\<bar>" and "\<bar>y\<bar> < 1 / 2 ^ k" and "k \<le> 1021"
  shows "rnd y = Fin (of_int (round_even (y * 2 ^ (k + 53))) / 2 ^ (k + 53))"
proof -
  have "1 / (2::real) ^ k \<le> 1" by (simp add: field_simps)
  moreover have "(1::real) \<le> 2 ^ 53" by simp
  ultimately have "\<bar>y\<bar> \<le> 2 ^ 53" using assms(2) by linarith
  then show ?thesis by (simp only: rnd_bounded nearest_binade_lo[OF assms])
qed

lemma rnd_binade_hi:
  assumes "2 ^ k \<le> \<bar>y\<bar>" and "\<bar>y\<bar> < 2 ^ Suc k" and "k \<le> 52"
  shows "rnd y = Fin (of_int (round_even (y * 2 ^ (52 - k))) / 2 ^ (52 - k))"
proof -
  have "(2::real) ^ Suc k \<le> 2 ^ 53" using assms(3) by (intro power_increasing) simp_all
  with assms(2) have "\<bar>y\<bar> \<le> 2 ^ 53" by simp
  then show ?thesis by (simp only: rnd_bounded nearest_binade_hi[OF assms])
qed

text \<open>
  Rules that evaluate a rounding: \<open>rnd_vals\<close> for a number that is a double, \<open>rnd_binades\<close>
  for any number between \<open>2^-25\<close> and 16.
\<close>

lemmas rnd_vals = rnd_exact[where k=0] rnd_exact[where k=30] rnd_exact[where k=62]

lemmas rnd_binades =
  rnd_binade_lo[where k=0] rnd_binade_lo[where k=1] rnd_binade_lo[where k=2]
  rnd_binade_lo[where k=3] rnd_binade_lo[where k=4] rnd_binade_lo[where k=5]
  rnd_binade_lo[where k=6] rnd_binade_lo[where k=7] rnd_binade_lo[where k=8]
  rnd_binade_lo[where k=9] rnd_binade_lo[where k=10] rnd_binade_lo[where k=11]
  rnd_binade_lo[where k=12] rnd_binade_lo[where k=13] rnd_binade_lo[where k=14]
  rnd_binade_lo[where k=15] rnd_binade_lo[where k=16] rnd_binade_lo[where k=17]
  rnd_binade_lo[where k=18] rnd_binade_lo[where k=19] rnd_binade_lo[where k=20]
  rnd_binade_lo[where k=21] rnd_binade_lo[where k=22] rnd_binade_lo[where k=23]
  rnd_binade_lo[where k=24] rnd_binade_hi[where k=0] rnd_binade_hi[where k=1]
  rnd_binade_hi[where k=2] rnd_binade_hi[where k=3]

text \<open>The double that \<open>1e-4\<close> denotes.\<close>

lemma nearest_epsilon: "nearest (1 / 10000) = 7378697629483821 / 2 ^ 66"
proof -
  have "nearest (1 / 10000) = of_int (round_even (1 / 10000 * 2 ^ (13 + 53))) / 2 ^ (13 + 53)"
    by (rule nearest_binade_lo) simp_all
  also have "round_even (1 / 10000 * 2 ^ (13 + 53)) = 7378697629483821"
    by (simp add: round_even_def)
  finally show ?thesis by simp
qed

lemma EPSILON_value: "EPSILON = Fin (7378697629483821 / 2 ^ 66)"
  by (simp add: EPSILON_def rnd_bounded nearest_epsilon)

text \<open>The exponential of a non-positive number: in \<open>[0, 1]\<close>, 1 near zero, 0 far from it.\<close>

lemma rnd_exp_unit:
  assumes "0 \<le> t"
  shows "rnd (exp (- t)) = Fin (nearest (exp (- t)))"
  using assms by (intro rnd_bounded) (simp add: order_trans[of _ 1])

lemma nearest_below_1: "nearest (1 - 1 / 2 ^ 54) = 1"
proof -
  have "nearest (1 - 1 / 2 ^ 54)
        = of_int (round_even ((1 - 1 / 2 ^ 54) * 2 ^ (0 + 53))) / 2 ^ (0 + 53)"
    by (rule nearest_binade_lo) simp_all
  also have "round_even ((1 - 1 / 2 ^ 54) * 2 ^ (0 + 53)) = 2 ^ 53"
    by (simp add: round_even_def)
  finally show ?thesis by simp
qed

lemma rnd_exp_one:
  assumes "0 \<le> t" and "t \<le> 1 / 2 ^ 54"
  shows "rnd (exp (- t)) = Fin 1"
proof -
  have "1 - 1 / 2 ^ 54 \<le> 1 + - t" using assms(2) by simp
  also have "\<dots> \<le> exp (- t)" by (rule exp_ge_add_one_self)
  finally have "nearest (1 - 1 / 2 ^ 54) \<le> nearest (exp (- t))" by (rule nearest_mono)
  then have "1 \<le> nearest (exp (- t))" unfolding nearest_below_1 .
  moreover have "nearest (exp (- t)) \<le> 1"
    using nearest_mono[of "exp (- t)" 1] assms(1) by simp
  ultimately have "nearest (exp (- t)) = 1" by simp
  then show ?thesis using assms(1) by (simp add: rnd_exp_unit)
qed

lemma exp_underflow: "exp (- 5000 :: real) < 1 / 2 ^ 1075"
proof -
  have "(2::real) \<le> exp 1" using exp_ge_add_one_self[of "1::real"] by simp
  then have "(2::real) ^ 5000 \<le> exp 1 ^ 5000" by (rule power_mono) simp
  also have "exp (1::real) ^ 5000 = exp 5000"
    using exp_of_nat_mult[of 5000 "1::real"] by simp
  finally have "(2::real) ^ 5000 \<le> exp 5000" .
  moreover have "(2::real) ^ 1075 < 2 ^ 5000" by (rule power_strict_increasing) simp_all
  ultimately have "(2::real) ^ 1075 < exp 5000" by simp
  then have "1 / exp (5000::real) < 1 / 2 ^ 1075"
    by (simp add: frac_less2)
  then show ?thesis by (simp add: exp_minus field_simps)
qed

lemma rnd_exp_underflow: "rnd (exp (- 5000)) = Fin 0"
  using rnd_exp_unit[of 5000] nearest_underflow[of "exp (- 5000)"] exp_underflow by simp

subsection \<open>Loops over an index range\<close>

lemma fold_upt_upd:
  assumes step: "\<And>j r. j < k \<Longrightarrow> length r = length row \<Longrightarrow> r ! j = row ! j \<Longrightarrow>
                   G j r = r[j := g j (row ! j)]"
    and le: "k \<le> length row"
  shows "fold G [0..<k] row = map (\<lambda>j. g j (row ! j)) [0..<k] @ drop k row"
  using assms
proof (induction k)
  case 0
  then show ?case by simp
next
  case (Suc k)
  let ?r = "map (\<lambda>j. g j (row ! j)) [0..<k] @ drop k row"
  have IH: "fold G [0..<k] row = ?r"
    using Suc.prems by (intro Suc.IH) auto
  have len: "length ?r = length row" using Suc.prems by simp
  have nth: "?r ! k = row ! k" using Suc.prems by (simp add: nth_append)
  have drop: "drop k row = row ! k # drop (Suc k) row"
    using Suc.prems by (simp add: Cons_nth_drop_Suc)
  have "G k ?r = ?r[k := g k (row ! k)]"
    using Suc.prems(1)[OF _ len nth] by simp
  also have "\<dots> = map (\<lambda>j. g j (row ! j)) [0..<k] @ (drop k row)[0 := g k (row ! k)]"
    by (simp add: list_update_append)
  also have "\<dots> = map (\<lambda>j. g j (row ! j)) [0..<Suc k] @ drop (Suc k) row"
    by (simp add: drop)
  finally show ?case using IH by simp
qed

lemma fold_upt_set:
  assumes "k \<le> length row"
  shows "fold (\<lambda>j r. r[j := f j]) [0..<k] row = map f [0..<k] @ drop k row"
  using fold_upt_upd[where G="\<lambda>j r. r[j := f j]" and g="\<lambda>j _. f j", OF _ assms] by simp

lemma fold_upd_same:
  assumes "i < length row"
  shows "fold (\<lambda>j r. r[i := c j (r ! i)]) js row = row[i := fold c js (row ! i)]"
  using assms by (induction js arbitrary: row) auto

subsection \<open>The allocator and the row loop\<close>

lemma request_objs: "request h = (ok, h') \<Longrightarrow> objs h' = objs h"
  by (auto simp: request_def)

lemma request_failed: "request h = (ok, h') \<Longrightarrow> failed h' = (failed h \<or> \<not> ok)"
  by (auto simp: request_def)

lemma allocates_malloc_row: "allocates (\<lambda>row. length row = w) (malloc_row w)"
  by (simp add: allocates_def malloc_row_def split: prod.splits) (auto simp: request_def)

lemma allocates_calloc_row: "allocates (\<lambda>row. row = replicate w 0) (calloc_row w)"
  by (simp add: allocates_def calloc_row_def split: prod.splits) (auto simp: request_def)

lemma row_loop_objs:
  assumes "allocates P alloc"
  shows "objs (snd (row_loop alloc fill h is X)) = objs h"
  using assms
proof (induction "is" arbitrary: h X)
  case Nil
  then show ?case by simp
next
  case (Cons i "is")
  from Cons.prems have "objs (snd (alloc h)) = objs h" by (simp add: allocates_def)
  with Cons show ?case by (auto split: prod.splits option.splits)
qed

lemma row_loop_failed:
  assumes "allocates P alloc"
  shows "failed (snd (row_loop alloc fill h is X)) =
         (failed h \<or> fst (row_loop alloc fill h is X) = None)"
  using assms
proof (induction "is" arbitrary: h X)
  case Nil
  then show ?case by simp
next
  case (Cons i "is")
  from Cons.prems have "failed (snd (alloc h)) = (failed h \<or> fst (alloc h) = None)"
    by (simp add: allocates_def)
  with Cons show ?case by (auto split: prod.splits option.splits)
qed

lemma row_loop_result:
  assumes "allocates P alloc"
    and "\<And>i row. i \<in> set is \<Longrightarrow> P row \<Longrightarrow> fill i row = F i"
    and "row_loop alloc fill h is X = (Some M, h')"
  shows "M = X @ map F is"
  using assms
proof (induction "is" arbitrary: h X)
  case Nil
  then show ?case by simp
next
  case (Cons i "is")
  from Cons.prems(3) obtain row h1 where a: "alloc h = (Some row, h1)"
    and r: "row_loop alloc fill h1 is (X @ [fill i row]) = (Some M, h')"
    by (auto split: prod.splits option.splits)
  from Cons.prems(1) a have "P row"
    by (auto simp: allocates_def dest: spec[where x=h])
  then have "fill i row = F i" using Cons.prems(2) by simp
  moreover have "M = (X @ [fill i row]) @ map F is"
    using Cons.IH[OF Cons.prems(1) _ r] Cons.prems(2) by simp
  ultimately show ?case by simp
qed

subsection \<open>Products and transposes\<close>

lemma matrix_multiply_row_eq:
  assumes "length row = p"
  shows "matrix_multiply_row A B m p i row = map (\<lambda>j. dot A B m i j) [0..<p]"
proof -
  have "fold (\<lambda>j row. fold (\<lambda>k row. row[j := row ! j + A ! i ! k * B ! k ! j]) [0..<m] (row[j := 0]))
          [0..<p] row = map (\<lambda>j. dot A B m i j) [0..<p] @ drop p row"
  proof (rule fold_upt_upd[where g="\<lambda>j _. dot A B m i j"])
    fix j and r :: "dbl list"
    assume j: "j < p" and len: "length r = length row"
    have "fold (\<lambda>k row. row[j := row ! j + A ! i ! k * B ! k ! j]) [0..<m] (r[j := 0])
          = (r[j := 0])[j := fold (\<lambda>k c. c + A ! i ! k * B ! k ! j) [0..<m] ((r[j := 0]) ! j)]"
      using j len assms
      by (intro fold_upd_same[where c="\<lambda>k c. c + A ! i ! k * B ! k ! j"]) simp
    then show "fold (\<lambda>k row. row[j := row ! j + A ! i ! k * B ! k ! j]) [0..<m] (r[j := 0])
          = r[j := dot A B m i j]"
      using j len assms by (simp add: dot_def)
  qed (simp add: assms)
  then show ?thesis using assms by (simp add: matrix_multiply_row_def)
qed

lemma matrix_multiply_result:
  assumes "matrix_multiply h A B n m p = (Some M, h')"
  shows "M = mat_mul A B n m p"
proof -
  from assms have "row_loop (calloc_row p) (matrix_multiply_row A B m p) (snd (request h)) [0..<n] []
      = (Some M, h')"
    by (auto simp: matrix_multiply_def split: prod.splits if_splits)
  from row_loop_result[OF allocates_calloc_row _ this, of "\<lambda>i. map (\<lambda>j. dot A B m i j) [0..<p]"]
  show ?thesis by (simp add: matrix_multiply_row_eq mat_mul_def)
qed

lemma matrix_multiply_objs: "objs (snd (matrix_multiply h A B n m p)) = objs h"
  by (auto simp: matrix_multiply_def row_loop_objs[OF allocates_calloc_row] split: prod.splits
           dest: request_objs)

lemma matrix_multiply_failed:
  "failed (snd (matrix_multiply h A B n m p)) = (failed h \<or> fst (matrix_multiply h A B n m p) = None)"
  by (auto simp: matrix_multiply_def row_loop_failed[OF allocates_calloc_row] split: prod.splits
           dest: request_failed)

lemma transpose_matrix_result:
  assumes "transpose_matrix h A n m = (Some M, h')"
  shows "M = mat_transpose A n m"
proof -
  from assms have "row_loop (malloc_row n) (transpose_matrix_row A n) (snd (request h)) [0..<m] []
      = (Some M, h')"
    by (auto simp: transpose_matrix_def split: prod.splits if_splits)
  from row_loop_result[OF allocates_malloc_row _ this, of "\<lambda>i. map (\<lambda>j. A ! j ! i) [0..<n]"]
  show ?thesis by (simp add: transpose_matrix_row_def fold_upt_set mat_transpose_def)
qed

lemma transpose_matrix_objs: "objs (snd (transpose_matrix h A n m)) = objs h"
  by (auto simp: transpose_matrix_def row_loop_objs[OF allocates_malloc_row] split: prod.splits
           dest: request_objs)

lemma transpose_matrix_failed:
  "failed (snd (transpose_matrix h A n m)) = (failed h \<or> fst (transpose_matrix h A n m) = None)"
  by (auto simp: transpose_matrix_def row_loop_failed[OF allocates_malloc_row] split: prod.splits
           dest: request_failed)

subsection \<open>Loops over the entries of a matrix\<close>

lemma fold_upd_row:
  assumes "i < length M" and "k \<le> length (M ! i)"
  shows "fold (\<lambda>j M. M[i := (M ! i)[j := v j (M ! i ! j)]]) [0..<k] M
         = M[i := map (\<lambda>j. v j (M ! i ! j)) [0..<k] @ drop k (M ! i)]"
proof -
  have "fold (\<lambda>j M. M[i := (\<lambda>j r. r[j := v j (r ! j)]) j (M ! i)]) [0..<k] M
        = M[i := fold (\<lambda>j r. r[j := v j (r ! j)]) [0..<k] (M ! i)]"
    using assms(1) by (rule fold_upd_same)
  moreover have "fold (\<lambda>j r. r[j := v j (r ! j)]) [0..<k] (M ! i)
        = map (\<lambda>j. v j (M ! i ! j)) [0..<k] @ drop k (M ! i)"
    using assms(2) by (intro fold_upt_upd) simp_all
  ultimately show ?thesis by simp
qed

lemma fold_upd_matrix:
  assumes "n \<le> length M" and "\<And>i. i < n \<Longrightarrow> k \<le> length (M ! i)"
  shows "fold (\<lambda>i M. fold (\<lambda>j M. M[i := (M ! i)[j := v i j (M ! i ! j)]]) [0..<k] M) [0..<n] M
         = map (\<lambda>i. map (\<lambda>j. v i j (M ! i ! j)) [0..<k] @ drop k (M ! i)) [0..<n] @ drop n M"
proof (rule fold_upt_upd[where g="\<lambda>i r. map (\<lambda>j. v i j (r ! j)) [0..<k] @ drop k r"])
  fix i and r :: "'a list list"
  assume "i < n" "length r = length M" "r ! i = M ! i"
  then show "fold (\<lambda>j M. M[i := (M ! i)[j := v i j (M ! i ! j)]]) [0..<k] r
       = r[i := map (\<lambda>j. v i j (M ! i ! j)) [0..<k] @ drop k (M ! i)]"
    using assms fold_upd_row[of i r k "v i"] by simp
qed (rule assms(1))

lemma dims_nth: "dims M n k \<Longrightarrow> i < n \<Longrightarrow> length (M ! i) = k"
  by (auto simp: dims_def list_all_length)

lemma update_loop_eq:
  assumes "dims Hm n k"
  shows "update_loop Hm WH HHtH n k
         = map (\<lambda>i. map (\<lambda>j. Hm ! i ! j * (1 - beta + beta * (WH ! i ! j / HHtH ! i ! j))) [0..<k])
               [0..<n]"
proof -
  have "update_loop Hm WH HHtH n k
        = map (\<lambda>i. map (\<lambda>j. Hm ! i ! j * (1 - beta + beta * (WH ! i ! j / HHtH ! i ! j))) [0..<k]
                     @ drop k (Hm ! i)) [0..<n] @ drop n Hm"
    unfolding update_loop_def using assms
    by (intro fold_upd_matrix[where v="\<lambda>i j x. x * (1 - beta + beta * (WH ! i ! j / HHtH ! i ! j))"])
       (simp_all add: dims_def dims_nth[OF assms])
  then show ?thesis using assms by (simp add: dims_def dims_nth[OF assms])
qed

lemma copy_loop_eq:
  assumes "dims dest n k"
  shows "copy_loop dest src n k = map (\<lambda>i. map (\<lambda>j. src ! i ! j) [0..<k]) [0..<n]"
proof -
  have "copy_loop dest src n k
        = map (\<lambda>i. map (\<lambda>j. src ! i ! j) [0..<k] @ drop k (dest ! i)) [0..<n] @ drop n dest"
    unfolding copy_loop_def using assms
    by (intro fold_upd_matrix[where v="\<lambda>i j x. src ! i ! j"])
       (simp_all add: dims_def dims_nth[OF assms])
  then show ?thesis using assms by (simp add: dims_def dims_nth[OF assms])
qed

subsection \<open>The update step\<close>

lemma get_cong: "objs h' = objs h \<Longrightarrow> get h' a = get h a"
  by (simp add: get_def)

lemma objs_put [simp]: "objs (put h a M) = (objs h)[a := Some M]"
  by (simp add: put_def)

lemma failed_put [simp]: "failed (put h a M) = failed h"
  by (simp add: put_def)

lemma update_H_False_objs:
  assumes "update_H h W H n k = (False, h')"
  shows "objs h' = objs h"
proof -
  note o = matrix_multiply_objs transpose_matrix_objs
  show ?thesis
    using assms o[of h] 
    apply (simp add: update_H_def split: prod.splits option.splits)
    apply (auto dest!: arg_cong[where f="\<lambda>x. objs (snd x)"] simp: o)
    done
qed

lemma holds_get: "holds h a M \<Longrightarrow> get h a = M"
  by (simp add: holds_def get_def)

lemma matrix_multiply_spec:
  assumes "matrix_multiply h A B n m p = (r, h')"
  shows "objs h' = objs h" and "failed h' = (failed h \<or> r = None)"
    and "\<And>M. r = Some M \<Longrightarrow> M = mat_mul A B n m p"
  using assms matrix_multiply_objs[of h A B n m p] matrix_multiply_failed[of h A B n m p]
    matrix_multiply_result[of h A B n m p _ h']
  by auto

lemma transpose_matrix_spec:
  assumes "transpose_matrix h A n m = (r, h')"
  shows "objs h' = objs h" and "failed h' = (failed h \<or> r = None)"
    and "\<And>M. r = Some M \<Longrightarrow> M = mat_transpose A n m"
  using assms transpose_matrix_objs[of h A n m] transpose_matrix_failed[of h A n m]
    transpose_matrix_result[of h A n m _ h']
  by auto

lemma update_H_failed:
  assumes "update_H h W H n k = (ok, h')"
  shows "failed h' = (failed h \<or> \<not> ok)"
proof -
  obtain r1 h1 where 1: "matrix_multiply h (get h W) (get h H) n n k = (r1, h1)"
    by (cases "matrix_multiply h (get h W) (get h H) n n k")
  obtain r2 h2 where 2: "transpose_matrix h1 (get h1 H) n k = (r2, h2)"
    by (cases "transpose_matrix h1 (get h1 H) n k")
  obtain r3 h3 where 3: "matrix_multiply h2 (get h2 H) (the r2) n k n = (r3, h3)"
    by (cases "matrix_multiply h2 (get h2 H) (the r2) n k n")
  obtain r4 h4 where 4: "matrix_multiply h3 (the r3) (get h3 H) n n k = (r4, h4)"
    by (cases "matrix_multiply h3 (the r3) (get h3 H) n n k")
  note f = matrix_multiply_spec(2)[OF 1] transpose_matrix_spec(2)[OF 2]
    matrix_multiply_spec(2)[OF 3] matrix_multiply_spec(2)[OF 4]
  show ?thesis
  proof (cases r1)
    case None
    with assms 1 f show ?thesis by (auto simp: update_H_def)
  next
    case s1: (Some WH)
    show ?thesis
    proof (cases r2)
      case None
      with assms 1 2 s1 f show ?thesis by (auto simp: update_H_def)
    next
      case s2: (Some Ht)
      show ?thesis
      proof (cases r3)
        case None
        with assms 1 2 3 s1 s2 f show ?thesis by (auto simp: update_H_def)
      next
        case s3: (Some HHt)
        show ?thesis
        proof (cases r4)
          case None
          with assms 1 2 3 4 s1 s2 s3 f show ?thesis by (auto simp: update_H_def)
        next
          case s4: (Some HHtH)
          with assms 1 2 3 4 s1 s2 s3 f show ?thesis by (auto simp: update_H_def)
        qed
      qed
    qed
  qed
qed

lemma update_H_True:
  assumes "update_H h W H n k = (True, h')" and "dims (get h H) n k"
  shows "objs h' = (objs h)[H := Some (update_rule (get h W) (get h H) n k)]"
proof -
  obtain r1 h1 where 1: "matrix_multiply h (get h W) (get h H) n n k = (r1, h1)"
    by (cases "matrix_multiply h (get h W) (get h H) n n k")
  with assms(1) obtain WH where r1: "r1 = Some WH"
    by (cases r1) (simp_all add: update_H_def)
  obtain r2 h2 where 2: "transpose_matrix h1 (get h1 H) n k = (r2, h2)"
    by (cases "transpose_matrix h1 (get h1 H) n k")
  with assms(1) 1 r1 obtain Ht where r2: "r2 = Some Ht"
    by (cases r2) (simp_all add: update_H_def)
  obtain r3 h3 where 3: "matrix_multiply h2 (get h2 H) Ht n k n = (r3, h3)"
    by (cases "matrix_multiply h2 (get h2 H) Ht n k n")
  with assms(1) 1 r1 2 r2 obtain HHt where r3: "r3 = Some HHt"
    by (cases r3) (simp_all add: update_H_def)
  obtain r4 h4 where 4: "matrix_multiply h3 HHt (get h3 H) n n k = (r4, h4)"
    by (cases "matrix_multiply h3 HHt (get h3 H) n n k")
  with assms(1) 1 r1 2 r2 3 r3 obtain HHtH where r4: "r4 = Some HHtH"
    by (cases r4) (simp_all add: update_H_def)
  have 5: "h' = put h4 H (update_loop (get h4 H) WH HHtH n k)"
    using assms(1) 1 r1 2 r2 3 r3 4 r4 by (simp add: update_H_def)
  note 1 = 1[unfolded r1] and 2 = 2[unfolded r2] and 3 = 3[unfolded r3] and 4 = 4[unfolded r4]
  have o1: "objs h1 = objs h" using 1 by (rule matrix_multiply_spec(1))
  have o2: "objs h2 = objs h" using 2 o1 by (simp add: transpose_matrix_spec(1))
  have o3: "objs h3 = objs h" using 3 o2 by (simp add: matrix_multiply_spec(1))
  have o4: "objs h4 = objs h" using 4 o3 by (simp add: matrix_multiply_spec(1))
  have g: "get h1 H = get h H" "get h2 H = get h H" "get h3 H = get h H" "get h4 H = get h H"
    by (rule get_cong, rule o1, rule get_cong, rule o2, rule get_cong, rule o3,
        rule get_cong, rule o4)
  have WH: "WH = mat_mul (get h W) (get h H) n n k"
    using matrix_multiply_spec(3)[OF 1] by simp
  have Ht: "Ht = mat_transpose (get h H) n k"
    using transpose_matrix_spec(3)[OF 2] g by simp
  have HHt: "HHt = mat_mul (get h H) Ht n k n"
    using matrix_multiply_spec(3)[OF 3] g by simp
  have HHtH: "HHtH = mat_mul HHt (get h H) n n k"
    using matrix_multiply_spec(3)[OF 4] g by simp
  show ?thesis
    unfolding 5 using o4 g
    by (simp add: update_loop_eq[OF assms(2)] update_rule_def update_factor_def Let_def WH Ht HHt HHtH)
qed

lemma dims_map [simp]: "dims (map (\<lambda>i. map (f i) [0..<k]) [0..<n]) n k"
  by (simp add: dims_def list_all_iff)

lemma dims_update_rule [simp]: "dims (update_rule W H n k) n k"
  by (simp add: update_rule_def Let_def)

lemma map_nth_dims: "dims M n k \<Longrightarrow> map (\<lambda>i. map (\<lambda>j. M ! i ! j) [0..<k]) [0..<n] = M"
  by (auto simp: dims_def list_all_length intro!: nth_equalityI)

subsection \<open>Similarity, degree and normalization\<close>

lemma sym_row_eq:
  assumes "length row = n"
  shows "sym_row points n d i row
         = map (\<lambda>j. if i = j then 0 else exp_d (- sq_dist points d i j / Fin 2)) [0..<n]"
proof -
  have "sym_row points n d i row
        = map (\<lambda>j. if i = j then 0 else exp_d (- sq_dist points d i j / Fin 2)) [0..<n] @ drop n row"
    unfolding sym_row_def
    by (rule fold_upt_upd[where g="\<lambda>j _. if i = j then 0 else exp_d (- sq_dist points d i j / Fin 2)"])
       (simp_all add: assms sq_dist_def Let_def)
  then show ?thesis using assms by simp
qed

lemma row_loop_spec:
  assumes "allocates P alloc" and "row_loop alloc fill h is X = (r, h')"
  shows "objs h' = objs h" and "failed h' = (failed h \<or> r = None)"
    and "\<And>M. r = Some M \<Longrightarrow> (\<And>i row. i \<in> set is \<Longrightarrow> P row \<Longrightarrow> fill i row = F i)
           \<Longrightarrow> M = X @ map F is"
  using assms row_loop_objs[OF assms(1), of fill h "is" X] row_loop_failed[OF assms(1), of fill h "is" X]
    row_loop_result[OF assms(1), of "is" fill F h X _ h']
  by auto

lemma sym_spec:
  assumes "sym_c h points n d = (r, h')"
  shows "objs h' = objs h" and "failed h' = (failed h \<or> r = None)"
    and "\<And>A. r = Some A \<Longrightarrow> A = similarity points n d"
proof -
  obtain ok h1 where 1: "request h = (ok, h1)" by (cases "request h")
  show "objs h' = objs h"
    using assms 1 request_objs[OF 1] row_loop_spec(1)[OF allocates_malloc_row]
    by (auto simp: sym_c_def split: if_splits)
  show "failed h' = (failed h \<or> r = None)"
    using assms 1 request_failed[OF 1] row_loop_spec(2)[OF allocates_malloc_row]
    by (auto simp: sym_c_def split: if_splits)
  show "A = similarity points n d" if "r = Some A" for A
  proof -
    from assms 1 that have "row_loop (malloc_row n) (sym_row points n d) h1 [0..<n] [] = (Some A, h')"
      by (auto simp: sym_c_def split: if_splits)
    from row_loop_spec(3)[OF allocates_malloc_row this refl, where F="\<lambda>i. map (\<lambda>j. if i = j then 0 else exp_d (- sq_dist points d i j / Fin 2)) [0..<n]"]
    show ?thesis by (simp add: sym_row_eq similarity_def)
  qed
qed

lemma ddg_row_eq:
  assumes "i < n"
  shows "ddg_row A n i (replicate n 0) = map (\<lambda>j. if i = j then row_sum A n i else 0) [0..<n]"
proof -
  have "ddg_row A n i (replicate n 0)
        = (replicate n 0)[i := fold (\<lambda>j c. c + A ! i ! j) [0..<n] (replicate n 0 ! i)]"
    unfolding ddg_row_def using assms
    by (intro fold_upd_same[where c="\<lambda>j c. c + A ! i ! j"]) simp
  then show ?thesis using assms
    by (auto simp: row_sum_def intro!: nth_equalityI)
qed

lemma ddg_spec:
  assumes "ddg h points n d = (r, h')"
  shows "objs h' = objs h" and "failed h' = (failed h \<or> r = None)"
    and "\<And>D. r = Some D \<Longrightarrow> D = degree points n d"
proof -
  obtain r1 h1 where 1: "sym_c h points n d = (r1, h1)" by (cases "sym_c h points n d")
  obtain ok h2 where 2: "request h1 = (ok, h2)" by (cases "request h1")
  note s = sym_spec[OF 1] and q = request_objs[OF 2] request_failed[OF 2]
  note l = row_loop_spec[OF allocates_calloc_row]
  show "objs h' = objs h"
    using assms 1 2 s(1) q(1) l(1) by (cases r1) (auto simp: ddg_def split: if_splits)
  show "failed h' = (failed h \<or> r = None)"
    using assms 1 2 s(2) q(2) l(2) by (cases r1) (auto simp: ddg_def split: if_splits)
  show "D = degree points n d" if "r = Some D" for D
  proof -
    from assms 1 that obtain A where A: "r1 = Some A" by (cases r1) (auto simp: ddg_def)
    with assms 1 2 that have "row_loop (calloc_row n) (ddg_row A n) h2 [0..<n] [] = (Some D, h')"
      by (auto simp: ddg_def split: if_splits)
    from l(3)[OF this refl, where F="\<lambda>i. map (\<lambda>j. if i = j then row_sum A n i else 0) [0..<n]"]
    have "D = map (\<lambda>i. map (\<lambda>j. if i = j then row_sum A n i else 0) [0..<n]) [0..<n]"
      by (simp add: ddg_row_eq)
    then show ?thesis using s(3)[OF A] by (simp add: degree_def)
  qed
qed

lemma norm_degree_eq: "norm_degree A n (replicate n 0) = map (row_sum A n) [0..<n]"
proof -
  have "norm_degree A n (replicate n 0)
        = map (\<lambda>i. fold (\<lambda>j c. c + A ! i ! j) [0..<n] (replicate n 0 ! i)) [0..<n]
          @ drop n (replicate n 0)"
    unfolding norm_degree_def
  proof (rule fold_upt_upd[where g="\<lambda>i x. fold (\<lambda>j c. c + A ! i ! j) [0..<n] x"])
    fix i and r :: "dbl list"
    assume "i < n" "length r = length (replicate n (0::dbl))" "r ! i = replicate n 0 ! i"
    then show "fold (\<lambda>j dg. dg[i := dg ! i + A ! i ! j]) [0..<n] r
               = r[i := fold (\<lambda>j c. c + A ! i ! j) [0..<n] (replicate n 0 ! i)]"
      using fold_upd_same[of i r "\<lambda>j c. c + A ! i ! j" "[0..<n]"] by simp
  qed simp
  then show ?thesis by (simp add: row_sum_def)
qed

lemma norm_row_eq:
  assumes "length row = n"
  shows "norm_row A deg n i row = map (\<lambda>j. A ! i ! j / sqrt_d (deg ! i * deg ! j)) [0..<n]"
  unfolding norm_row_def using assms by (simp add: fold_upt_set)

lemma calloc_row_spec:
  assumes "calloc_row w h = (r, h')"
  shows "objs h' = objs h" and "failed h' = (failed h \<or> r = None)"
    and "\<And>row. r = Some row \<Longrightarrow> row = replicate w 0"
  using assms allocates_calloc_row[of w] by (auto simp: allocates_def dest: spec[where x=h])

lemma norm_spec:
  assumes "norm_c h points n d = (r, h')"
  shows "objs h' = objs h" and "failed h' = (failed h \<or> r = None)"
    and "\<And>N. r = Some N \<Longrightarrow> N = normalized points n d"
proof -
  obtain r1 h1 where 1: "sym_c h points n d = (r1, h1)" by (cases "sym_c h points n d")
  obtain r2 h2 where 2: "calloc_row n h1 = (r2, h2)" by (cases "calloc_row n h1")
  obtain ok h3 where 3: "request h2 = (ok, h3)" by (cases "request h2")
  note s = sym_spec[OF 1] and c = calloc_row_spec[OF 2]
    and q = request_objs[OF 3] request_failed[OF 3]
  note l = row_loop_spec[OF allocates_malloc_row]
  show "objs h' = objs h"
    using assms 1 2 3 s(1) c(1) q(1) l(1)
    by (cases r1; cases r2) (auto simp: norm_c_def Let_def split: if_splits)
  show "failed h' = (failed h \<or> r = None)"
    using assms 1 2 3 s(2) c(2) q(2) l(2)
    by (cases r1; cases r2) (auto simp: norm_c_def Let_def split: if_splits)
  show "N = normalized points n d" if "r = Some N" for N
  proof -
    from assms 1 that obtain A where A: "r1 = Some A" by (cases r1) (auto simp: norm_c_def)
    from assms 1 2 A that obtain dg where dg: "r2 = Some dg" by (cases r2) (auto simp: norm_c_def)
    have dg0: "dg = replicate n 0" using c(3)[OF dg] .
    from assms 1 2 3 A dg that
    have "row_loop (malloc_row n) (norm_row A (norm_degree A n dg) n) h3 [0..<n] [] = (Some N, h')"
      by (auto simp: norm_c_def Let_def split: if_splits)
    from l(3)[OF this refl, where F="\<lambda>i. map (\<lambda>j. A ! i ! j / sqrt_d (norm_degree A n dg ! i * norm_degree A n dg ! j)) [0..<n]"]
    have "N = map (\<lambda>i. map (\<lambda>j. A ! i ! j / sqrt_d (norm_degree A n dg ! i * norm_degree A n dg ! j)) [0..<n]) [0..<n]"
      by (simp add: norm_row_eq)
    then show ?thesis using s(3)[OF A] by (simp add: normalized_def Let_def dg0 norm_degree_eq)
  qed
qed

subsection \<open>The squared Frobenius norm\<close>

lemma fold_concat: "fold f (concat xss) = fold (fold f) xss"
  by (induction xss) simp_all

lemma calculate_frobenius_norm_eq:
  "calculate_frobenius_norm A B n k = sum_squares (entries_diff A B n k)"
proof -
  have "sum_squares (entries_diff A B n k)
        = fold (\<lambda>x s. s + x * x) (entries_diff A B n k) 0"
    by (simp add: sum_squares_def foldl_conv_fold fold_map comp_def)
  also have "\<dots> = fold (\<lambda>i. fold (\<lambda>j s. s + (A ! i ! j - B ! i ! j) * (A ! i ! j - B ! i ! j)) [0..<k])
                     [0..<n] 0"
    by (simp add: entries_diff_def fold_concat fold_map comp_def)
  finally show ?thesis by (simp add: calculate_frobenius_norm_def Let_def)
qed

subsection \<open>The factorization loop\<close>

lemma malloc_row_spec:
  assumes "malloc_row w h = (r, h')"
  shows "objs h' = objs h" and "failed h' = (failed h \<or> r = None)"
    and "\<And>row. r = Some row \<Longrightarrow> length row = w"
  using assms allocates_malloc_row[of w] by (auto simp: allocates_def dest: spec[where x=h])

lemma dims_snoc: "dims M n k \<Longrightarrow> length row = k \<Longrightarrow> dims (M @ [row]) (Suc n) k"
  by (simp add: dims_def)

lemma symnmf_rows_all:
  assumes "symnmf_rows h k is P R = (r, h')"
  shows "objs h' = objs h \<and> failed h' = (failed h \<or> r = None)
    \<and> (\<forall>P' R' m. r = Some (P', R') \<longrightarrow> dims P m k \<longrightarrow> dims R m k
           \<longrightarrow> dims P' (m + length is) k \<and> dims R' (m + length is) k)"
  using assms
proof (induction "is" arbitrary: h P R)
  case Nil
  then show ?case by auto
next
  case (Cons i "is")
  obtain r1 h1 where 1: "malloc_row k h = (r1, h1)" by (cases "malloc_row k h")
  note m1 = malloc_row_spec[OF 1]
  show ?case
  proof (cases r1)
    case None
    with Cons.prems 1 m1 show ?thesis by simp
  next
    case r1: (Some row1)
    obtain r2 h2 where 2: "malloc_row k h1 = (r2, h2)" by (cases "malloc_row k h1")
    note m2 = malloc_row_spec[OF 2]
    show ?thesis
    proof (cases r2)
      case None
      with Cons.prems 1 2 r1 m1 m2 show ?thesis by simp
    next
      case r2: (Some row2)
      from Cons.prems 1 2 r1 r2
      have run: "symnmf_rows h2 k is (P @ [row1]) (R @ [row2]) = (r, h')" by simp
      note IH = Cons.IH[OF run]
      have "dims P' (m + length (i # is)) k \<and> dims R' (m + length (i # is)) k"
        if "r = Some (P', R')" "dims P m k" "dims R m k" for P' R' m
      proof -
        have "dims (P @ [row1]) (Suc m) k" "dims (R @ [row2]) (Suc m) k"
          using that m1(3)[OF r1] m2(3)[OF r2] by (simp_all add: dims_snoc)
        moreover from IH have "\<forall>P' R' m. r = Some (P', R') \<longrightarrow> dims (P @ [row1]) m k
            \<longrightarrow> dims (R @ [row2]) m k
            \<longrightarrow> dims P' (m + length is) k \<and> dims R' (m + length is) k" by blast
        ultimately have "dims P' (Suc m + length is) k \<and> dims R' (Suc m + length is) k"
          using that(1) by blast
        then show ?thesis by simp
      qed
      with IH m1(1,2) m2(1,2) r1 r2 show ?thesis by simp
    qed
  qed
qed

lemma symnmf_rows_spec:
  assumes "symnmf_rows h k is P R = (r, h')"
  shows "objs h' = objs h" and "failed h' = (failed h \<or> r = None)"
    and "\<And>P' R' m. r = Some (P', R') \<Longrightarrow> dims P m k \<Longrightarrow> dims R m k
           \<Longrightarrow> dims P' (m + length is) k \<and> dims R' (m + length is) k"
  using symnmf_rows_all[OF assms] by blast+

lemma failed_free_c_array [simp]: "failed (free_c_array h a) = failed h"
  by (simp add: free_c_array_def)

lemma objs_free_c_array [simp]: "objs (free_c_array h a) = (objs h)[a := None]"
  by (simp add: free_c_array_def)

lemma failed_copy_matrix [simp]: "failed (copy_matrix h a b n k) = failed h"
  by (simp add: copy_matrix_def)

lemma symnmf_loop_failed:
  assumes "symnmf_loop h W result H_prev n k its = (ok, h')"
  shows "failed h' = (failed h \<or> \<not> ok)"
  using assms
proof (induction its arbitrary: h)
  case Nil
  then show ?case by auto
next
  case (Cons iter its)
  obtain ok2 h2 where u: "update_H (copy_matrix h H_prev result n k) W result n k = (ok2, h2)"
    by (cases "update_H (copy_matrix h H_prev result n k) W result n k")
  from update_H_failed[OF u] have f: "failed h2 = (failed h \<or> \<not> ok2)" by simp
  show ?case
  proof (cases ok2)
    case False
    with Cons.prems u f show ?thesis by (auto simp: Let_def)
  next
    case True
    show ?thesis
    proof (cases "calculate_frobenius_norm (get h2 result) (get h2 H_prev) n k < EPSILON")
      case True
      with Cons.prems u f \<open>ok2\<close> show ?thesis by (auto simp: Let_def)
    next
      case False
      with Cons.prems u \<open>ok2\<close> have "symnmf_loop h2 W result H_prev n k its = (ok, h')"
        by (simp add: Let_def)
      from Cons.IH[OF this] f \<open>ok2\<close> show ?thesis by simp
    qed
  qed
qed

lemma get_append_0: "objs h = xs @ [Some P, Some R] \<Longrightarrow> get h (length xs) = P"
  by (simp add: get_def)

lemma get_append_1: "objs h = xs @ [Some P, Some R] \<Longrightarrow> get h (Suc (length xs)) = R"
  by (simp add: get_def nth_append)

lemma get_append_old: "objs h = xs @ ys \<Longrightarrow> a < length xs \<Longrightarrow> get h a = the (xs ! a)"
  by (simp add: get_def nth_append)

lemma symnmf_step:
  assumes inv: "objs h = objs0 @ [Some P, Some R]" "dims P n k" "dims R n k"
      "W < length objs0" "objs0 ! W = Some Wm"
    and u: "update_H (copy_matrix h (length objs0) (Suc (length objs0)) n k) W (Suc (length objs0)) n k
            = (ok, h2)"
  shows "objs h2 = objs0 @ [Some R, Some (if ok then update_rule Wm R n k else R)]"
proof -
  let ?h1 = "copy_matrix h (length objs0) (Suc (length objs0)) n k"
  have o1: "objs ?h1 = objs0 @ [Some R, Some R]"
    using inv by (simp add: copy_matrix_def get_append_0[OF inv(1)] get_append_1[OF inv(1)]
        copy_loop_eq map_nth_dims)
  have gR: "get ?h1 (Suc (length objs0)) = R" using o1 by (rule get_append_1)
  have gW: "get ?h1 W = Wm" using get_append_old[OF o1 inv(4)] inv(5) by simp
  show ?thesis
  proof (cases ok)
    case True
    from u True have "update_H ?h1 W (Suc (length objs0)) n k = (True, h2)" by simp
    from update_H_True[OF this] gR gW inv(3) o1 True show ?thesis
      by (simp add: list_update_append)
  next
    case False
    from u False have "update_H ?h1 W (Suc (length objs0)) n k = (False, h2)" by simp
    from update_H_False_objs[OF this] o1 False show ?thesis by simp
  qed
qed

lemma factor_iter_shift:
  "factor_iter W (update_rule W H n k) n k t = factor_iter W H n k (Suc t)"
  by (induction t) simp_all

lemma delta_shift: "0 < t \<Longrightarrow> delta W (update_rule W H n k) n k t = delta W H n k (Suc t)"
  by (cases t) (simp_all add: delta_def factor_iter_shift del: factor_iter.simps)

lemma symnmf_loop_False:
  assumes "objs h = objs0 @ [Some P, Some R]" "dims P n k" "dims R n k"
      "W < length objs0" "objs0 ! W = Some Wm"
    and "symnmf_loop h W (Suc (length objs0)) (length objs0) n k its = (False, h')"
  shows "objs h' = objs0 @ [None, None]"
  using assms
proof (induction its arbitrary: h P R)
  case Nil
  then show ?case by simp
next
  case (Cons iter its)
  let ?h1 = "copy_matrix h (length objs0) (Suc (length objs0)) n k"
  obtain ok2 h2 where u: "update_H ?h1 W (Suc (length objs0)) n k = (ok2, h2)"
    by (cases "update_H ?h1 W (Suc (length objs0)) n k")
  note st = symnmf_step[OF Cons.prems(1-5) u]
  show ?case
  proof (cases ok2)
    case False
    with Cons.prems(6) u st show ?thesis by (auto simp: Let_def list_update_append)
  next
    case True
    with st have o2: "objs h2 = objs0 @ [Some R, Some (update_rule Wm R n k)]" by simp
    from Cons.prems(6) u True
    have run: "symnmf_loop h2 W (Suc (length objs0)) (length objs0) n k its = (False, h')"
      by (simp add: Let_def split: if_splits)
    show ?thesis
      by (rule Cons.IH[OF o2 Cons.prems(3) dims_update_rule Cons.prems(4,5) run])
  qed
qed

lemma symnmf_loop_True:
  assumes "objs h = objs0 @ [Some P, Some R]" "dims P n k" "dims R n k"
      "W < length objs0" "objs0 ! W = Some Wm"
    and "symnmf_loop h W (Suc (length objs0)) (length objs0) n k its = (True, h')"
  shows "\<exists>t\<le>length its.
           objs h' = objs0 @ [Some (if t = 0 then P else factor_iter Wm R n k (t - 1)),
                              Some (factor_iter Wm R n k t)]
         \<and> (\<forall>s. 0 < s \<and> s < t \<longrightarrow> \<not> delta Wm R n k s < EPSILON)
         \<and> (t = length its \<or> 0 < t \<and> delta Wm R n k t < EPSILON)"
  using assms
proof (induction its arbitrary: h P R)
  case Nil
  then show ?case by simp
next
  case (Cons iter its)
  let ?L = "length objs0"
  let ?h1 = "copy_matrix h ?L (Suc ?L) n k"
  let ?R1 = "update_rule Wm R n k"
  obtain ok2 h2 where u: "update_H ?h1 W (Suc ?L) n k = (ok2, h2)"
    by (cases "update_H ?h1 W (Suc ?L) n k")
  note st = symnmf_step[OF Cons.prems(1-5) u]
  from Cons.prems(6) u have ok2: ok2 by (auto simp: Let_def split: if_splits)
  with st have o2: "objs h2 = objs0 @ [Some R, Some ?R1]" by simp
  have g: "get h2 (Suc ?L) = ?R1" "get h2 ?L = R"
    using get_append_1[OF o2] get_append_0[OF o2] by simp_all
  have d1: "delta Wm R n k 1 = calculate_frobenius_norm ?R1 R n k"
    by (simp add: delta_def calculate_frobenius_norm_eq)
  show ?case
  proof (cases "calculate_frobenius_norm ?R1 R n k < EPSILON")
    case True
    with Cons.prems(6) u ok2 g have "h' = h2" by (simp add: Let_def)
    with o2 True d1 show ?thesis
      by (intro exI[where x=1]) simp
  next
    case False
    with Cons.prems(6) u ok2 g
    have run: "symnmf_loop h2 W (Suc ?L) ?L n k its = (True, h')" by (simp add: Let_def)
    from Cons.IH[OF o2 Cons.prems(3) dims_update_rule Cons.prems(4,5) run]
    obtain t where t: "t \<le> length its"
      "objs h' = objs0 @ [Some (if t = 0 then R else factor_iter Wm ?R1 n k (t - 1)),
                          Some (factor_iter Wm ?R1 n k t)]"
      "\<forall>s. 0 < s \<and> s < t \<longrightarrow> \<not> delta Wm ?R1 n k s < EPSILON"
      "t = length its \<or> 0 < t \<and> delta Wm ?R1 n k t < EPSILON"
      by blast
    have a: "objs h' = objs0 @ [Some (factor_iter Wm R n k (Suc t - 1)),
                                Some (factor_iter Wm R n k (Suc t))]"
    proof (cases t)
      case 0
      with t(2) show ?thesis by simp
    next
      case (Suc t')
      with t(2) show ?thesis by (simp add: factor_iter_shift del: factor_iter.simps)
    qed
    have b: "\<not> delta Wm R n k s < EPSILON" if "0 < s" "s < Suc t" for s
    proof (cases "s = 1")
      case True
      with False d1 show ?thesis by simp
    next
      case False
      with that obtain s' where s': "s = Suc s'" "0 < s'" "s' < t" by (cases s) auto
      with t(3) have "\<not> delta Wm ?R1 n k s' < EPSILON" by blast
      with s' show ?thesis by (simp add: delta_shift)
    qed
    have c: "Suc t = length (iter # its) \<or> 0 < Suc t \<and> delta Wm R n k (Suc t) < EPSILON"
      using t(4) by (auto simp: delta_shift)
    from t(1) a b c show ?thesis
      by (intro exI[where x="Suc t"]) simp
  qed
qed

lemma symnmf_failed:
  assumes "symnmf h W H n k = (r, h')"
  shows "failed h' = (failed h \<or> r = Null \<or> r = Undefined)"
proof -
  obtain ok1 h1 where 1: "request h = (ok1, h1)" by (cases "request h")
  obtain ok2 h2 where 2: "request h1 = (ok2, h2)" by (cases "request h1")
  obtain r3 h3 where 3: "symnmf_rows h2 k [0..<n] [] [] = (r3, h3)"
    by (cases "symnmf_rows h2 k [0..<n] [] []")
  note f = request_failed[OF 1] request_failed[OF 2] symnmf_rows_spec(2)[OF 3]
  show ?thesis
  proof (cases "ok1 \<and> ok2 \<and> r3 \<noteq> None")
    case no: False
    show ?thesis
    proof (cases ok1)
      case False
      with assms 1 f show ?thesis by (simp add: symnmf_def)
    next
      case ok1: True
      show ?thesis
      proof (cases ok2)
        case False
        with assms 1 2 ok1 f show ?thesis by (auto simp: symnmf_def split: if_splits)
      next
        case True
        with no ok1 have "r3 = None" by (cases r3) auto
        with assms 1 2 3 ok1 True f show ?thesis by (simp add: symnmf_def)
      qed
    qed
  next
    case True
    then obtain Pr Rr where r3: "r3 = Some (Pr, Rr)" by auto
    obtain H_prev h4 where 4: "new_matrix h3 Pr = (H_prev, h4)" by (cases "new_matrix h3 Pr")
    obtain result h5 where 5: "new_matrix h4 Rr = (result, h5)" by (cases "new_matrix h4 Rr")
    obtain ok h7 where 7: "symnmf_loop (copy_matrix h5 result H n k) W result H_prev n k [0..<MAX_ITER] = (ok, h7)"
      by (cases "symnmf_loop (copy_matrix h5 result H n k) W result H_prev n k [0..<MAX_ITER]")
    have "failed h5 = failed h3" using 4 5 by (auto simp: new_matrix_def)
    with symnmf_loop_failed[OF 7] have "failed h7 = (failed h3 \<or> \<not> ok)" by simp
    with assms 1 2 3 4 5 7 True r3 f show ?thesis
      by (auto simp: symnmf_def Let_def split: if_splits)
  qed
qed

lemma dims_Nil [simp]: "dims [] 0 k"
  by (simp add: dims_def)

lemma symnmf_objs:
  assumes W: "W < length (objs h)" "objs h ! W = Some Wm"
    and H: "H < length (objs h)" "objs h ! H = Some H0" "dims H0 n k"
    and run: "symnmf h W H n k = (r, h')"
  shows "r = Null \<Longrightarrow> objs h' = objs h \<or> objs h' = objs h @ [None, None]"
    and "r = Undefined \<Longrightarrow> objs h' = objs h"
    and "\<And>a. r = Ptr a \<Longrightarrow> a = Suc (length (objs h)) \<and>
          (\<exists>t. 0 < t \<and> t \<le> MAX_ITER
             \<and> objs h' = objs h @ [None, Some (factor_iter Wm H0 n k t)]
             \<and> (\<forall>s. 0 < s \<and> s < t \<longrightarrow> \<not> delta Wm H0 n k s < EPSILON)
             \<and> (t = MAX_ITER \<or> delta Wm H0 n k t < EPSILON))"
proof -
  obtain ok1 h1 where 1: "request h = (ok1, h1)" by (cases "request h")
  obtain ok2 h2 where 2: "request h1 = (ok2, h2)" by (cases "request h1")
  obtain r3 h3 where 3: "symnmf_rows h2 k [0..<n] [] [] = (r3, h3)"
    by (cases "symnmf_rows h2 k [0..<n] [] []")
  have o3: "objs h3 = objs h"
    using request_objs[OF 1] request_objs[OF 2] symnmf_rows_spec(1)[OF 3] by simp
  have early: "(r = Null \<or> r = Undefined) \<and> objs h' = objs h" if "\<not> (ok1 \<and> ok2 \<and> r3 \<noteq> None)"
  proof (cases ok1)
    case False
    with run 1 request_objs[OF 1] show ?thesis by (simp add: symnmf_def)
  next
    case ok1: True
    show ?thesis
    proof (cases ok2)
      case False
      with run 1 2 ok1 request_objs[OF 1] request_objs[OF 2] show ?thesis
        by (auto simp: symnmf_def split: if_splits)
    next
      case True
      with that ok1 have "r3 = None" by (cases r3) auto
      with run 1 2 3 ok1 True o3 show ?thesis by (simp add: symnmf_def)
    qed
  qed
  have late: "(r = Null \<longrightarrow> objs h' = objs h @ [None, None]) \<and> r \<noteq> Undefined \<and>
     (\<forall>a. r = Ptr a \<longrightarrow> a = Suc (length (objs h)) \<and>
          (\<exists>t. 0 < t \<and> t \<le> MAX_ITER
             \<and> objs h' = objs h @ [None, Some (factor_iter Wm H0 n k t)]
             \<and> (\<forall>s. 0 < s \<and> s < t \<longrightarrow> \<not> delta Wm H0 n k s < EPSILON)
             \<and> (t = MAX_ITER \<or> delta Wm H0 n k t < EPSILON)))"
    if ok: "ok1 \<and> ok2 \<and> r3 \<noteq> None"
  proof -
    from ok obtain Pr Rr where r3: "r3 = Some (Pr, Rr)" by auto
    from symnmf_rows_spec(3)[OF 3 r3, of 0] have d: "dims Pr n k" "dims Rr n k" by simp_all
    let ?L = "length (objs h)"
    let ?h4 = "snd (new_matrix h3 Pr)"
    let ?h5 = "snd (new_matrix ?h4 Rr)"
    let ?h6 = "copy_matrix ?h5 (Suc ?L) H n k"
    have o5: "objs ?h5 = objs h @ [Some Pr, Some Rr]"
      using o3 by (simp add: new_matrix_def)
    have a: "fst (new_matrix h3 Pr) = ?L" "fst (new_matrix ?h4 Rr) = Suc ?L"
      using o3 by (simp_all add: new_matrix_def)
    have gH: "get ?h5 H = H0" using get_append_old[OF o5 H(1)] H(2) by simp
    have o6: "objs ?h6 = objs h @ [Some Pr, Some H0]"
      using o5 gH d H(3)
      by (simp add: copy_matrix_def get_append_1[OF o5] copy_loop_eq map_nth_dims
          list_update_append)
    obtain ok7 h7 where 7: "symnmf_loop ?h6 W (Suc ?L) ?L n k [0..<MAX_ITER] = (ok7, h7)"
      by (cases "symnmf_loop ?h6 W (Suc ?L) ?L n k [0..<MAX_ITER]")
    have res: "(r, h') = (if \<not> ok7 then (Null, h7) else (Ptr (Suc ?L), free_c_array h7 ?L))"
      using run 1 2 3 ok r3 a 7
      by (auto simp: symnmf_def Let_def split: prod.splits if_splits)
    show ?thesis
    proof (cases ok7)
      case False
      with 7 have "symnmf_loop ?h6 W (Suc ?L) ?L n k [0..<MAX_ITER] = (False, h7)" by simp
      from symnmf_loop_False[OF o6 d(1) H(3) W this] res False show ?thesis by simp
    next
      case True
      with 7 have "symnmf_loop ?h6 W (Suc ?L) ?L n k [0..<MAX_ITER] = (True, h7)" by simp
      from symnmf_loop_True[OF o6 d(1) H(3) W this]
      obtain t where t: "t \<le> MAX_ITER"
        "objs h7 = objs h @ [Some (if t = 0 then Pr else factor_iter Wm H0 n k (t - 1)),
                             Some (factor_iter Wm H0 n k t)]"
        "\<forall>s. 0 < s \<and> s < t \<longrightarrow> \<not> delta Wm H0 n k s < EPSILON"
        "t = MAX_ITER \<or> 0 < t \<and> delta Wm H0 n k t < EPSILON"
        by auto
      from t(4) have "0 < t" by (auto simp: MAX_ITER_def)
      moreover have "objs h' = objs h @ [None, Some (factor_iter Wm H0 n k t)]"
        using res True t(2) by simp
      ultimately show ?thesis using res True t(1,3,4) by auto
    qed
  qed
  show "r = Null \<Longrightarrow> objs h' = objs h \<or> objs h' = objs h @ [None, None]"
    using early late by blast
  show "r = Undefined \<Longrightarrow> objs h' = objs h"
    using early late by blast
  show "\<And>a. r = Ptr a \<Longrightarrow> a = Suc (length (objs h)) \<and>
          (\<exists>t. 0 < t \<and> t \<le> MAX_ITER
             \<and> objs h' = objs h @ [None, Some (factor_iter Wm H0 n k t)]
             \<and> (\<forall>s. 0 < s \<and> s < t \<longrightarrow> \<not> delta Wm H0 n k s < EPSILON)
             \<and> (t = MAX_ITER \<or> delta Wm H0 n k t < EPSILON))"
    using early late by (cases "ok1 \<and> ok2 \<and> r3 \<noteq> None") auto
qed

subsection \<open>Squares, sums and quotients of doubles\<close>


lemma dbl_square_uminus: "(- a) * (- a) = a * (a::dbl)"
  by (cases a) simp_all

lemma sq_diff_sym: "((a::dbl) - b) * (a - b) = (b - a) * (b - a)"
proof (cases a; cases b)
  fix x y assume "a = Fin x" "b = Fin y"
  moreover have "rnd (y + - x) = - rnd (x + - y)"
    using rnd_uminus[of "x + - y"] by simp
  ultimately show ?thesis by (simp add: minus_dbl_def dbl_square_uminus)
qed (simp_all add: minus_dbl_def)

lemma zero_times_finite: "is_finite x \<Longrightarrow> 0 * x = (0::dbl)"
  by (cases x) (simp_all add: zero_dbl_def)

lemma zero_times_not_finite: "\<not> is_finite x \<Longrightarrow> 0 * x = NaN"
  by (cases x) (simp_all add: zero_dbl_def)

lemma div_zero_not_finite: "\<not> is_finite (x / 0)"
  by (cases x) (simp_all add: zero_dbl_def)


lemma sq_dist_sym: "sq_dist points d i j = sq_dist points d j i"
  unfolding sq_dist_def by (rule fold_cong) (simp_all add: sq_diff_sym fun_eq_iff)

text \<open>A sum of squares of finite values is a non-negative number or, after an overflow, \<open>+Inf\<close>.\<close>

lemma square_diff_range:
  "(Fin x - Fin y) * (Fin x - Fin y) = PInf
   \<or> (\<exists>r. (Fin x - Fin y) * (Fin x - Fin y) = Fin r \<and> 0 \<le> r)"
proof (cases "rnd (x + - y)")
  case (Fin z)
  with rnd_nonneg[of "z * z"] show ?thesis by (auto simp: minus_dbl_def)
qed (simp_all add: minus_dbl_def)

lemma add_nonneg_range:
  assumes "a = PInf \<or> (\<exists>r. a = Fin r \<and> 0 \<le> r)" and "b = PInf \<or> (\<exists>r. b = Fin r \<and> 0 \<le> r)"
  shows "a + b = PInf \<or> (\<exists>r. a + b = Fin r \<and> 0 \<le> r)"
proof (cases a; cases b)
  fix x y assume ab: "a = Fin x" "b = Fin y"
  with assms have "0 \<le> x + y" by simp
  from rnd_nonneg[OF this] ab show ?thesis by auto
qed (use assms in simp_all)

lemma sq_dist_range:
  assumes "\<And>k. k < d \<Longrightarrow> is_finite (points ! i ! k) \<and> is_finite (points ! j ! k)"
  shows "sq_dist points d i j = PInf \<or> (\<exists>s. sq_dist points d i j = Fin s \<and> 0 \<le> s)"
  using assms
proof (induction d)
  case 0
  then show ?case by (simp add: sq_dist_def zero_dbl_def)
next
  case (Suc d)
  then have IH: "sq_dist points d i j = PInf \<or> (\<exists>s. sq_dist points d i j = Fin s \<and> 0 \<le> s)"
    by simp
  from Suc.prems[of d] obtain x y where xy: "points ! i ! d = Fin x" "points ! j ! d = Fin y"
    by (cases "points ! i ! d"; cases "points ! j ! d") auto
  have "sq_dist points (Suc d) i j
        = sq_dist points d i j + (Fin x - Fin y) * (Fin x - Fin y)"
    using xy by (simp add: sq_dist_def)
  with add_nonneg_range[OF IH square_diff_range[of x y]] show ?case by simp
qed

lemma sq_dist_same:
  assumes "\<And>k. k < d \<Longrightarrow> is_finite (points ! i ! k)" and "points ! i = points ! j"
  shows "sq_dist points d i j = 0"
  using assms(1)
proof (induction d)
  case 0
  then show ?case by (simp add: sq_dist_def)
next
  case (Suc d)
  then have IH: "sq_dist points d i j = 0" by simp
  from Suc.prems[of d] obtain x where x: "points ! i ! d = Fin x"
    by (cases "points ! i ! d") auto
  have "sq_dist points (Suc d) i j = sq_dist points d i j + (Fin x - Fin x) * (Fin x - Fin x)"
    using x assms(2) by (simp add: sq_dist_def)
  then show ?case using IH by (simp add: minus_dbl_def zero_dbl_def)
qed

lemma exp_d_range:
  assumes "a = PInf \<or> (\<exists>s. a = Fin s \<and> 0 \<le> s)"
  shows "\<exists>r. exp_d (- a / Fin 2) = Fin r \<and> 0 \<le> r \<and> r \<le> 1"
proof (cases a)
  case (Fin s)
  with assms have s: "0 \<le> s / 2" by simp
  have half: "- a / Fin 2 = - rnd (s / 2)"
    using Fin rnd_uminus[of "s / 2"] by simp
  from rnd_nonneg[OF s] show ?thesis
  proof
    assume "rnd (s / 2) = PInf"
    with half show ?thesis by simp
  next
    assume "\<exists>r. rnd (s / 2) = Fin r \<and> 0 \<le> r"
    then obtain t where t: "rnd (s / 2) = Fin t" "0 \<le> t" by blast
    then have "0 \<le> exp (- t)" "exp (- t) \<le> 1" by simp_all
    from rnd_unit[OF this] half t(1) show ?thesis by simp
  qed
qed (use assms in simp_all)

lemma similarity_nth:
  "i < n \<Longrightarrow> j < n \<Longrightarrow> similarity points n d ! i ! j
     = (if i = j then 0 else exp_d (- sq_dist points d i j / Fin 2))"
  by (simp add: similarity_def)

lemma similarity_sym: "i < n \<Longrightarrow> j < n \<Longrightarrow> similarity points n d ! i ! j = similarity points n d ! j ! i"
  by (simp add: similarity_nth sq_dist_sym)

subsection \<open>The range of the similarity\<close>

lemma rnd_Fin: "rnd y = Fin z \<Longrightarrow> z = nearest y"
  by (simp add: rnd_def split: if_splits)

lemma half_uminus: "- Fin s / Fin 2 = - rnd (s / 2)"
  using rnd_uminus[of "s / 2"] by simp

lemma exp_d_half: "exp_d (- Fin s / Fin 2) = exp_d (- rnd (s / 2))"
  by (simp only: half_uminus)

lemma square_diff_ge:
  assumes "0 \<le> c" and "c \<le> \<bar>x - y\<bar>" and "nearest c = c" and "nearest (c * c) = c * c"
  shows "(Fin x - Fin y) * (Fin x - Fin y) = PInf
       \<or> (\<exists>r. (Fin x - Fin y) * (Fin x - Fin y) = Fin r \<and> c * c \<le> r)"
proof (cases "rnd (x + - y)")
  case (Fin z)
  then have z: "z = nearest (x - y)" using rnd_Fin[of "x + - y" z] by simp
  have "c \<le> \<bar>z\<bar>"
  proof (cases "c \<le> x - y")
    case True
    from nearest_mono[OF this] assms(3) z show ?thesis by simp
  next
    case False
    with assms(2) have "x - y \<le> - c" by simp
    from nearest_mono[OF this] assms(3) z show ?thesis by (simp add: nearest_uminus)
  qed
  with assms(1) have "c * c \<le> \<bar>z\<bar> * \<bar>z\<bar>" by (intro mult_mono) simp_all
  then have "c * c \<le> z * z" by simp
  from rnd_ge[OF _ this assms(4)] assms(1) Fin show ?thesis by (simp add: minus_dbl_def)
qed (simp_all add: minus_dbl_def)

lemma add_ge_range:
  assumes "a = PInf \<or> (\<exists>r. a = Fin r \<and> c \<le> r)" and "b = PInf \<or> (\<exists>r. b = Fin r \<and> 0 \<le> r)"
    and "0 \<le> c" and "nearest c = c"
  shows "a + b = PInf \<or> (\<exists>r. a + b = Fin r \<and> c \<le> r)"
    and "b + a = PInf \<or> (\<exists>r. b + a = Fin r \<and> c \<le> r)"
proof -
  have "(a + b = PInf \<or> (\<exists>r. a + b = Fin r \<and> c \<le> r))
      \<and> (b + a = PInf \<or> (\<exists>r. b + a = Fin r \<and> c \<le> r))"
  proof (cases a; cases b)
    fix x y assume ab: "a = Fin x" "b = Fin y"
    with assms(1,2) have "c \<le> x + y" "c \<le> y + x" by simp_all
    from rnd_ge[OF assms(3) this(1) assms(4)] rnd_ge[OF assms(3) this(2) assms(4)] ab
    show ?thesis by simp
  qed (use assms(1,2) in simp_all)
  then show "a + b = PInf \<or> (\<exists>r. a + b = Fin r \<and> c \<le> r)"
    and "b + a = PInf \<or> (\<exists>r. b + a = Fin r \<and> c \<le> r)" by blast+
qed

text \<open>
  One coordinate in which the points differ by \<open>c\<close> or more puts the sum of squares at
  \<open>c^2\<close> or more: no later term takes it below.
\<close>

lemma sq_dist_ge:
  assumes fin: "\<And>k. k < d \<Longrightarrow> is_finite (points ! i ! k) \<and> is_finite (points ! j ! k)"
    and k: "k < d" "points ! i ! k = Fin x" "points ! j ! k = Fin y" "c \<le> \<bar>x - y\<bar>"
    and c: "0 \<le> c" "nearest c = c" "nearest (c * c) = c * c"
  shows "sq_dist points d i j = PInf \<or> (\<exists>s. sq_dist points d i j = Fin s \<and> c * c \<le> s)"
  using fin k(1)
proof (induction d)
  case 0
  then show ?case by simp
next
  case (Suc d)
  from Suc.prems(1)[of d] obtain u v where uv: "points ! i ! d = Fin u" "points ! j ! d = Fin v"
    by (cases "points ! i ! d"; cases "points ! j ! d") auto
  have step: "sq_dist points (Suc d) i j
        = sq_dist points d i j + (Fin u - Fin v) * (Fin u - Fin v)"
    using uv by (simp add: sq_dist_def)
  have cc: "0 \<le> c * c" using c(1) by simp
  show ?case
  proof (cases "k = d")
    case True
    with uv k(2,3) have "u = x" "v = y" by simp_all
    with square_diff_ge[OF c(1) k(4) c(2,3)]
    have "(Fin u - Fin v) * (Fin u - Fin v) = PInf
        \<or> (\<exists>r. (Fin u - Fin v) * (Fin u - Fin v) = Fin r \<and> c * c \<le> r)" by simp
    from add_ge_range(2)[OF this sq_dist_range cc c(3)] Suc.prems(1) step
    show ?thesis by simp
  next
    case False
    with Suc.prems(2) have "k < d" by simp
    with Suc.IH Suc.prems(1)
    have "sq_dist points d i j = PInf \<or> (\<exists>s. sq_dist points d i j = Fin s \<and> c * c \<le> s)"
      by simp
    from add_ge_range(1)[OF this square_diff_range cc c(3)] step show ?thesis by simp
  qed
qed

text \<open>From \<open>2^-50\<close> on, the exponential of minus half the sum is below 1.\<close>

lemma exp_below_1:
  fixes t :: real
  assumes "1 / 2 ^ 51 \<le> t"
  shows "exp (- t) \<le> 1 - 1 / 2 ^ 53"
proof -
  have "1 + 1 / 2 ^ 51 \<le> exp (1 / 2 ^ 51 :: real)" by (rule exp_ge_add_one_self)
  then have "1 / exp (1 / 2 ^ 51 :: real) \<le> 1 / (1 + 1 / 2 ^ 51)"
    by (intro divide_left_mono) simp_all
  moreover have "exp (- t) \<le> exp (- (1 / 2 ^ 51))" using assms by (intro exp_mono) simp
  moreover have "exp (- (1 / 2 ^ 51) :: real) = 1 / exp (1 / 2 ^ 51)"
    by (simp only: exp_minus inverse_eq_divide)
  moreover have "1 / (1 + 1 / 2 ^ 51) \<le> (1 - 1 / 2 ^ 53 :: real)" by simp
  ultimately show ?thesis by linarith
qed

lemma exp_d_below_1:
  assumes "a = PInf \<or> (\<exists>s. a = Fin s \<and> 1 / 2 ^ 50 \<le> s)"
  shows "\<exists>r. exp_d (- a / Fin 2) = Fin r \<and> r < 1"
proof (cases a)
  case (Fin s)
  with assms have "1 / 2 ^ 51 \<le> s / 2" by simp
  from rnd_ge[OF _ this nearest_exact[where k=51]]
  have "rnd (s / 2) = PInf \<or> (\<exists>t. rnd (s / 2) = Fin t \<and> 1 / 2 ^ 51 \<le> t)" by simp
  then show ?thesis
  proof
    assume "rnd (s / 2) = PInf"
    with Fin show ?thesis by (simp only: exp_d_half) simp
  next
    assume "\<exists>t. rnd (s / 2) = Fin t \<and> 1 / 2 ^ 51 \<le> t"
    then obtain t where t: "rnd (s / 2) = Fin t" "1 / 2 ^ 51 \<le> t" by blast
    have "nearest (1 - 1 / 2 ^ 53) = 1 - 1 / 2 ^ 53"
      by (rule nearest_exact[where k=53]) simp_all
    moreover have "(1 - 1 / 2 ^ 53 :: real) < huge" using huge_gt by simp
    ultimately obtain r where "rnd (exp (- t)) = Fin r" "r \<le> 1 - 1 / 2 ^ 53"
      using rnd_le[OF _ exp_below_1[OF t(2)]] by auto
    with Fin t(1) show ?thesis by (simp only: exp_d_half) simp
  qed
qed (use assms in simp_all)

text \<open>Below 1000, the exponential of minus half the sum is a positive double.\<close>

lemma exp_above_0:
  fixes t :: real
  assumes "t \<le> 500"
  shows "1 / 2 ^ 1000 \<le> exp (- t)"
proof -
  have "exp (1::real) ^ 500 \<le> 4 ^ 500"
    using exp_le by (intro power_mono) simp_all
  moreover have "exp (1::real) ^ 500 = exp 500"
    using exp_of_nat_mult[of 500 "1::real"] by simp
  moreover have "(4::real) ^ 500 = 2 ^ 1000"
    using power_mult[of "2::real" 2 500] by simp
  ultimately have "exp (500::real) \<le> 2 ^ 1000" by simp
  then have "1 / 2 ^ 1000 \<le> 1 / exp (500::real)"
    by (intro divide_left_mono) simp_all
  moreover have "exp (- 500 :: real) = 1 / exp 500"
    by (simp only: exp_minus inverse_eq_divide)
  moreover have "exp (- 500) \<le> exp (- t)" using assms by (intro exp_mono) simp
  ultimately show ?thesis by linarith
qed

lemma exp_d_above_0:
  assumes "0 \<le> s" and "s < 1000"
  shows "\<exists>r. exp_d (- Fin s / Fin 2) = Fin r \<and> 0 < r"
proof -
  have "(500::real) < huge" using huge_gt by simp
  with assms obtain t where t: "rnd (s / 2) = Fin t" "0 \<le> t" "t \<le> 500"
    using rnd_le[of "s / 2" 500] nearest_exact[where k=0 and y=500] by auto
  have "nearest (1 / 2 ^ 1000) = 1 / 2 ^ 1000"
    by (rule nearest_exact[where k=1000]) simp_all
  with nearest_mono[OF exp_above_0[OF t(3)]] have "0 < nearest (exp (- t))"
    by (smt (verit) divide_pos_pos zero_less_power)
  with t(1,2) show ?thesis by (simp only: exp_d_half) (simp add: rnd_exp_unit)
qed

lemma similarity_range:
  assumes "\<And>k. k < d \<Longrightarrow> is_finite (points ! i ! k) \<and> is_finite (points ! j ! k)"
    and "i < n" "j < n" "i \<noteq> j"
  shows "\<exists>r. similarity points n d ! i ! j = Fin r \<and> 0 \<le> r \<and> r \<le> 1"
  using exp_d_range[OF sq_dist_range[OF assms(1)]] assms(2-4) by (simp add: similarity_nth)

lemma similarity_same:
  assumes "\<And>k. k < d \<Longrightarrow> is_finite (points ! i ! k)" and "points ! i = points ! j"
    and "i < n" "j < n" "i \<noteq> j"
  shows "similarity points n d ! i ! j = 1"
  using sq_dist_same[OF assms(1,2)] assms(3-5)
  by (simp add: similarity_nth zero_dbl_def one_dbl_def rnd_vals)

lemma similarity_one:
  assumes fin: "\<And>k. k < d \<Longrightarrow> is_finite (points ! i ! k) \<and> is_finite (points ! j ! k)"
    and ij: "i < n" "j < n" "i \<noteq> j" and one: "similarity points n d ! i ! j = 1"
  shows "sq_dist points d i j < Fin (1 / 2 ^ 50)"
    and "\<And>k x y. k < d \<Longrightarrow> points ! i ! k = Fin x \<Longrightarrow> points ! j ! k = Fin y
           \<Longrightarrow> \<bar>x - y\<bar> < 1 / 2 ^ 25"
proof -
  have e: "exp_d (- sq_dist points d i j / Fin 2) = Fin 1"
    using ij one by (simp add: similarity_nth one_dbl_def)
  have no: "\<not> (sq_dist points d i j = PInf
             \<or> (\<exists>s. sq_dist points d i j = Fin s \<and> 1 / 2 ^ 50 \<le> s))"
    using exp_d_below_1[of "sq_dist points d i j"] e by auto
  with sq_dist_range[where d=d, OF fin] show "sq_dist points d i j < Fin (1 / 2 ^ 50)"
    by (cases "sq_dist points d i j") auto
  show "\<bar>x - y\<bar> < 1 / 2 ^ 25"
    if "k < d" "points ! i ! k = Fin x" "points ! j ! k = Fin y" for k x y
  proof (rule ccontr)
    assume "\<not> \<bar>x - y\<bar> < 1 / 2 ^ 25"
    then have far: "1 / 2 ^ 25 \<le> \<bar>x - y\<bar>" by simp
    have c: "nearest (1 / 2 ^ 25) = 1 / 2 ^ 25"
      "nearest (1 / 2 ^ 25 * (1 / 2 ^ 25)) = 1 / 2 ^ 25 * (1 / 2 ^ 25)"
      by (rule nearest_exact[where k=25], simp, simp, simp)
         (rule nearest_exact[where k=50], simp, simp, simp)
    from sq_dist_ge[where d=d, OF fin that far _ c] no show False by simp
  qed
qed

lemma similarity_zero:
  assumes fin: "\<And>k. k < d \<Longrightarrow> is_finite (points ! i ! k) \<and> is_finite (points ! j ! k)"
    and ij: "i < n" "j < n" "i \<noteq> j" and zero: "similarity points n d ! i ! j = 0"
  shows "Fin 1000 \<le> sq_dist points d i j"
proof -
  have e: "exp_d (- sq_dist points d i j / Fin 2) = Fin 0"
    using ij zero by (simp add: similarity_nth zero_dbl_def)
  from sq_dist_range[where d=d, OF fin] show ?thesis
  proof
    assume "sq_dist points d i j = PInf"
    then show ?thesis by simp
  next
    assume "\<exists>s. sq_dist points d i j = Fin s \<and> 0 \<le> s"
    then obtain s where s: "sq_dist points d i j = Fin s" "0 \<le> s" by blast
    with exp_d_above_0[of s] e have "\<not> s < 1000" by auto
    with s show ?thesis by simp
  qed
qed

subsection \<open>Runs on the example stores\<close>

lemma update_rule_nth:
  "i < n \<Longrightarrow> j < k \<Longrightarrow> update_rule W H n k ! i ! j = H ! i ! j * update_factor W H n k i j"
  by (simp add: update_rule_def)

lemma degree_nth:
  "i < n \<Longrightarrow> j < n \<Longrightarrow> degree points n d ! i ! j
     = (if i = j then row_sum (similarity points n d) n i else 0)"
  by (simp add: degree_def)

lemma sym_c_result:
  assumes "sym_c h points n d = (Some A, h')"
  shows "A = similarity points n d"
  using sym_spec(3)[OF assms] by simp

lemma upt_2: "[0..<2] = [0, Suc 0]"
  by (simp add: numeral_2_eq_2)

lemma upt_MAX_ITER: "[0..<MAX_ITER] = [0, 1, 2, 3] @ [4..<MAX_ITER]"
  by (simp add: MAX_ITER_def upt_conv_Cons)

text \<open>What unfolds a run of the code, and what unfolds the closed forms.\<close>

lemmas run_defs = update_H_def matrix_multiply_def transpose_matrix_def request_def
  calloc_row_def malloc_row_def get_def put_def upt_2 matrix_multiply_row_def
  transpose_matrix_row_def update_loop_def zero_dbl_def one_dbl_def beta_def minus_dbl_def
  symnmf_def new_matrix_def copy_matrix_def copy_loop_def upt_MAX_ITER Let_def free_c_array_def
  calculate_frobenius_norm_def EPSILON_value sym_c_def sym_row_def ddg_def ddg_row_def
  norm_c_def norm_degree_def norm_row_def

lemmas spec_defs = update_rule_def update_factor_def mat_mul_def mat_transpose_def dot_def
  upt_2 beta_def one_dbl_def zero_dbl_def minus_dbl_def Let_def delta_def sum_squares_def
  entries_diff_def similarity_def sq_dist_def row_sum_def

lemma update_H_heap_swap:
  "update_H heap_swap 0 1 2 2
   = (True, heap_swap\<lparr>objs := [Some [[Fin 0, Fin 1], [Fin 1, Fin 0]],
                                 Some [[Fin (1 / 2), NaN], [NaN, Fin (1 / 2)]]],
                        calls := 12\<rparr>)"
  by (simp add: heap_swap_def run_defs rnd_vals)

lemma update_H_heap_short:
  "update_H heap_short 0 1 2 2 = (False, heap_short\<lparr>calls := 5, failed := True\<rparr>)"
  by (simp add: heap_short_def heap_swap_def run_defs rnd_vals)



lemma dims_unit: "dims [[Fin x]] 1 1"
  by (simp add: dims_def)

text \<open>
  Newton's iteration from 2: four updates, the doubles \<open>1.25\<close>, \<open>1.0250000000000001\<close>,
  \<open>1.0003048780487804\<close> and \<open>1.0000000464611474\<close>.
\<close>

lemma symnmf_heap_newton:
  "symnmf heap_newton 0 1 1 1
   = (Ptr 3, heap_newton\<lparr>objs := [Some [[Fin 1]], Some [[Fin 2]], None,
                                    Some [[Fin (2251799918306451 / 2251799813685248)]]],
                          calls := 36\<rparr>)"
  by (simp add: heap_newton_def run_defs rnd_binades round_even_def)

lemma holds_heap_newton: "holds heap_newton 0 [[Fin 1]]" "holds heap_newton 1 [[Fin 2]]"
  by (simp_all add: holds_def heap_newton_def)

lemma update_rule_newton:
  "update_rule [[Fin 1]] [[Fin 2]] 1 1 = [[Fin (5 / 4)]]"
  "update_rule [[Fin 1]] [[Fin (5 / 4)]] 1 1 = [[Fin (4616189618054759 / 4503599627370496)]]"
  "update_rule [[Fin 1]] [[Fin (4616189618054759 / 4503599627370496)]] 1 1
   = [[Fin (4504972676037377 / 4503599627370496)]]"
  "update_rule [[Fin 1]] [[Fin (4504972676037377 / 4503599627370496)]] 1 1
   = [[Fin (2251799918306451 / 2251799813685248)]]"
  by (simp_all add: spec_defs rnd_binades round_even_def)

lemma factor_iter_newton:
  "factor_iter [[Fin 1]] [[Fin 2]] 1 1 1 = [[Fin (5 / 4)]]"
  "factor_iter [[Fin 1]] [[Fin 2]] 1 1 2 = [[Fin (4616189618054759 / 4503599627370496)]]"
  "factor_iter [[Fin 1]] [[Fin 2]] 1 1 3 = [[Fin (4504972676037377 / 4503599627370496)]]"
  "factor_iter [[Fin 1]] [[Fin 2]] 1 1 4 = [[Fin (2251799918306451 / 2251799813685248)]]"
  by (simp_all add: eval_nat_numeral update_rule_newton[unfolded One_nat_def])

lemma delta_newton:
  "delta [[Fin 1]] [[Fin 2]] 1 1 1 = Fin (9 / 16)"
  "delta [[Fin 1]] [[Fin 2]] 1 1 2 = Fin (7295831396340195 / 144115188075855872)"
  "delta [[Fin 1]] [[Fin 2]] 1 1 3 = Fin (5624864657737685 / 9223372036854775808)"
  "delta [[Fin 1]] [[Fin 2]] 1 1 4 = Fin (7021010240140741 / 75557863725914323419136)"
  by (simp_all add: delta_def eval_nat_numeral update_rule_newton[unfolded One_nat_def]
      sum_squares_def entries_diff_def zero_dbl_def minus_dbl_def rnd_binades round_even_def)

text \<open>The store with a zero entry in \<open>H\<close>: one update, and the factorization.\<close>

lemma update_H_heap_zero:
  "update_H heap_zero 0 1 2 2
   = (True, heap_zero\<lparr>objs := [Some [[Fin 0, Fin (3 / 16384)], [Fin (3 / 16384), Fin 0]],
                                 Some [[Fin 0, Fin (5 / 512)], [Fin (1 / 256), Fin (1 / 128)]]],
                        calls := 12\<rparr>)"
  by (simp add: heap_zero_def run_defs rnd_vals)

lemma symnmf_heap_zero:
  "symnmf heap_zero 0 1 2 2
   = (Ptr 3, heap_zero\<lparr>objs := [Some [[Fin 0, Fin (3 / 16384)], [Fin (3 / 16384), Fin 0]],
                                  Some [[Fin 0, Fin (1 / 128)], [Fin (1 / 128), Fin (1 / 128)]],
                                  None,
                                  Some [[Fin 0, Fin (5 / 512)], [Fin (1 / 256), Fin (1 / 128)]]],
                        calls := 18\<rparr>)"
  by (simp add: heap_zero_def run_defs rnd_vals)

lemma update_factor_heap_zero:
  "update_factor [[Fin 0, Fin (3 / 16384)], [Fin (3 / 16384), Fin 0]]
                 [[Fin 0, Fin (1 / 128)], [Fin (1 / 128), Fin (1 / 128)]] 2 2 0 0 = Fin 2"
  by (simp add: spec_defs rnd_vals)

lemma update_factor_heap_swap:
  "update_factor [[Fin 0, Fin 1], [Fin 1, Fin 0]] [[Fin 1, Fin 0], [Fin 0, Fin 1]] 2 2 0 1 = PInf"
  by (simp add: spec_defs rnd_vals)

lemma holds_heap_zero:
  "holds heap_zero 0 [[Fin 0, Fin (3 / 16384)], [Fin (3 / 16384), Fin 0]]"
  "holds heap_zero 1 [[Fin 0, Fin (1 / 128)], [Fin (1 / 128), Fin (1 / 128)]]"
  by (simp_all add: holds_def heap_zero_def)

lemma holds_heap_swap:
  "holds heap_swap 0 [[Fin 0, Fin 1], [Fin 1, Fin 0]]"
  "holds heap_swap 1 [[Fin 1, Fin 0], [Fin 0, Fin 1]]"
  by (simp_all add: holds_def heap_swap_def)

lemma dims_square: "dims [[a, b], [c, d]] 2 2"
  by (simp add: dims_def)

text \<open>Points on a line.\<close>

lemma norm_c_single:
  "norm_c heap_empty [[Fin 0]] 1 1 = (Some [[NaN]], heap_empty\<lparr>calls := 5\<rparr>)"
  by (simp add: heap_empty_def run_defs rnd_vals)

lemma sym_c_line:
  "sym_c heap_empty [[Fin 0], [Fin 1]] 2 1
   = (Some [[Fin 0, Fin (nearest (exp (- (1 / 2))))], [Fin (nearest (exp (- (1 / 2)))), Fin 0]],
      heap_empty\<lparr>calls := 3\<rparr>)"
  by (simp add: heap_empty_def run_defs rnd_vals rnd_exp_unit)

lemma sym_c_twice:
  "sym_c heap_empty [[Fin 0], [Fin 0]] 2 1
   = (Some [[Fin 0, Fin 1], [Fin 1, Fin 0]], heap_empty\<lparr>calls := 3\<rparr>)"
  by (simp add: heap_empty_def run_defs rnd_vals)

lemma ddg_twice:
  "ddg heap_empty [[Fin 0], [Fin 0]] 2 1
   = (Some [[Fin 1, Fin 0], [Fin 0, Fin 1]], heap_empty\<lparr>calls := 6\<rparr>)"
  by (simp add: heap_empty_def run_defs rnd_vals numeral_2_eq_2)



lemma sq_dist_line: "sq_dist [[Fin 0], [Fin 1]] 1 0 1 = Fin 1"
  by (simp add: spec_defs rnd_vals)

lemma dims_twice: "dims [[Fin 0], [Fin 0]] 2 1"
  by (simp add: dims_def)

lemma dims_line: "dims [[Fin 0], [Fin 1]] 2 1"
  by (simp add: dims_def)

lemma sym_c_far:
  "sym_c heap_empty [[Fin 0], [Fin 100]] 2 1
   = (Some [[Fin 0, Fin 0], [Fin 0, Fin 0]], heap_empty\<lparr>calls := 3\<rparr>)"
  by (simp add: heap_empty_def run_defs rnd_vals rnd_exp_underflow)

lemma sym_c_near:
  "sym_c heap_empty [[Fin 0], [Fin small]] 2 1
   = (Some [[Fin 0, Fin 1], [Fin 1, Fin 0]], heap_empty\<lparr>calls := 3\<rparr>)"
  by (simp add: heap_empty_def small_def run_defs rnd_vals rnd_exp_one)

subsection \<open>Failure and refusal\<close>

text \<open>
  Failure and refusal. Started with no refusal on record, each of \<open>sym\<close>, \<open>ddg\<close> and
  \<open>norm\<close> returns \<open>NULL\<close>, and \<open>update_H\<close> returns 0, exactly when the allocator refused a
  request during the call, whatever the values in the matrices; \<open>symnmf\<close> returns \<open>NULL\<close>
  or has no defined behaviour exactly then. A quotient with divisor zero is never
  finite; \<open>norm\<close> on a single point returns \<open>[[NaN]]\<close>, and the update on
  \<open>W = [[0, 1], [1, 0]]\<close>, \<open>H = [[1, 0], [0, 1]]\<close> returns 1 with NaN in \<open>H\<close>.
\<close>

lemma failure_iff_refusal:
  assumes "\<not> failed h"
  shows "(fst (sym_c h points n d) = None) = failed (snd (sym_c h points n d))
       \<and> (fst (ddg h points n d) = None) = failed (snd (ddg h points n d))
       \<and> (fst (norm_c h points n d) = None) = failed (snd (norm_c h points n d))
       \<and> (fst (symnmf h W H m k) = Null \<or> fst (symnmf h W H m k) = Undefined)
           = failed (snd (symnmf h W H m k))
       \<and> (\<not> fst (update_H h W H m k)) = failed (snd (update_H h W H m k))
       \<and> (\<forall>x. \<not> is_finite (x / 0))
       \<and> norm_c heap_empty [[Fin 0]] 1 1 = (Some [[NaN]], heap_empty\<lparr>calls := 5\<rparr>)
       \<and> update_H heap_swap 0 1 2 2
           = (True, heap_swap\<lparr>objs := [Some [[Fin 0, Fin 1], [Fin 1, Fin 0]],
                                         Some [[Fin (1 / 2), NaN], [NaN, Fin (1 / 2)]]],
                                calls := 12\<rparr>)"
  using assms sym_spec(2)[OF surjective_pairing, of h points n d]
    ddg_spec(2)[OF surjective_pairing, of h points n d]
    norm_spec(2)[OF surjective_pairing, of h points n d]
    symnmf_failed[OF surjective_pairing, of h W H m k]
    update_H_failed[OF surjective_pairing, of h W H m k]
    div_zero_not_finite norm_c_single update_H_heap_swap
  by simp

section \<open>The claims\<close>

text \<open>
  C1. One step of the multiplicative update on an \<open>n\<close> by \<open>n\<close> matrix \<open>W\<close> and an \<open>n\<close> by \<open>k\<close>
  matrix \<open>H\<close>, when no allocation fails, returns 1 and leaves at \<open>H\<close> the matrix whose
  entry \<open>(i, j)\<close> is the old entry times \<open>(1 - \<beta>) + \<beta> (WH[i][j] / HHtH[i][j])\<close>, with
  \<open>WH = W H\<close>, \<open>Ht\<close> the transpose of \<open>H\<close>, \<open>HHt = H Ht\<close>, \<open>HHtH = HHt H\<close> and \<open>\<beta> = 0.5\<close>.
\<close>

theorem update_H_rule:
  fixes Wm Hm :: matrix and n k :: nat
  defines "WH \<equiv> mat_mul Wm Hm n n k"
    and "Ht \<equiv> mat_transpose Hm n k"
  defines "HHt \<equiv> mat_mul Hm Ht n k n"
  defines "HHtH \<equiv> mat_mul HHt Hm n n k"
  assumes "holds h W Wm" and "holds h H Hm" and "dims Wm n n" and "dims Hm n k"
    and "update_H h W H n k = (ok, h')" and "\<not> failed h'"
  shows "ok \<and> beta = Fin (1 / 2)
       \<and> (\<forall>i<n. \<forall>j<k. get h' H ! i ! j
             = Hm ! i ! j * (1 - beta + beta * (WH ! i ! j / HHtH ! i ! j)))"
proof -
  from update_H_failed[OF assms(9)] assms(10) have ok: ok by simp
  with assms(9) have run: "update_H h W H n k = (True, h')" by simp
  have gH: "get h H = Hm" and gW: "get h W = Wm"
    using assms(5,6) by (simp_all add: holds_get)
  from update_H_True[OF run] assms(8) gH gW
  have "objs h' = (objs h)[H := Some (update_rule Wm Hm n k)]" by simp
  with assms(6) have "get h' H = update_rule Wm Hm n k"
    by (simp add: get_def holds_def)
  then show ?thesis
    using ok by (simp add: update_rule_nth update_factor_def Let_def WH_def Ht_def HHt_def
        HHtH_def beta_def)
qed

text \<open>
  For \<open>W = [[0, 1], [1, 0]]\<close> and \<open>H = [[1, 0], [0, 1]]\<close> the step succeeds and \<open>H[0][0]\<close>
  becomes \<open>1 * (0.5 + 0.5 * (0 / 1))\<close>.
\<close>

theorem update_H_rule_witness:
  "fst (update_H heap_swap 0 1 2 2)
   \<and> get (snd (update_H heap_swap 0 1 2 2)) 1 ! 0 ! 0 = 1 * (Fin 0.5 + Fin 0.5 * (Fin 0 / Fin 1))"
proof -
  have a: "holds heap_swap 0 [[Fin 0, Fin 1], [Fin 1, Fin 0]]"
    "holds heap_swap 1 [[Fin 1, Fin 0], [Fin 0, Fin 1]]"
    by (simp_all add: holds_def heap_swap_def)
  have b: "dims [[Fin 0, Fin 1], [Fin 1, Fin 0]] 2 2" "dims [[Fin 1, Fin 0], [Fin 0, Fin 1]] 2 2"
    by (simp_all add: dims_def)
  have c: "\<not> failed (snd (update_H heap_swap 0 1 2 2))"
    unfolding update_H_heap_swap by (simp add: heap_swap_def)
  from update_H_rule[OF a b surjective_pairing c]
  show ?thesis
    by (simp add: mat_mul_def mat_transpose_def dot_def upt_2 beta_def one_dbl_def zero_dbl_def
        minus_dbl_def rnd_vals)
qed

text \<open>
  C2. When no allocation fails, \<open>symnmf\<close> returns a matrix, and that matrix is iterate \<open>t\<close>
  of the update from the initial \<open>H\<close> for some \<open>t\<close> between 1 and 300: no earlier iterate
  was within squared Frobenius distance \<open>1e-4\<close> of the iterate before it, and iterate \<open>t\<close>
  is within that distance of iterate \<open>t - 1\<close> or \<open>t\<close> is 300. The distance is the sum of the
  squares of the entries of the difference, and \<open>1e-4\<close> is the double
  \<open>7378697629483821 / 2^66\<close>.
\<close>

theorem symnmf_iterations:
  assumes "holds h W Wm" and "holds h H H0" and "dims Wm n n" and "dims H0 n k"
    and "symnmf h W H n k = (r, h')" and "\<not> failed h'"
  shows "EPSILON = Fin (7378697629483821 / 2 ^ 66)
       \<and> (\<exists>a t. r = Ptr a \<and> holds h' a (factor_iter Wm H0 n k t) \<and> 0 < t \<and> t \<le> 300
              \<and> (\<forall>s. 0 < s \<and> s < t \<longrightarrow> \<not> delta Wm H0 n k s < EPSILON)
              \<and> (delta Wm H0 n k t < EPSILON \<or> t = 300))"
proof -
  from symnmf_failed[OF assms(5)] assms(6) obtain a where a: "r = Ptr a" by (cases r) auto
  from assms(1,2) have W: "W < length (objs h)" "objs h ! W = Some Wm"
    and H: "H < length (objs h)" "objs h ! H = Some H0"
    by (simp_all add: holds_def)
  from symnmf_objs(3)[OF W H assms(4,5) a]
  obtain t where t: "a = Suc (length (objs h))" "0 < t" "t \<le> MAX_ITER"
    "objs h' = objs h @ [None, Some (factor_iter Wm H0 n k t)]"
    "\<forall>s. 0 < s \<and> s < t \<longrightarrow> \<not> delta Wm H0 n k s < EPSILON"
    "t = MAX_ITER \<or> delta Wm H0 n k t < EPSILON"
    by blast
  have "holds h' a (factor_iter Wm H0 n k t)"
    using t(1,4) by (simp add: holds_def nth_append)
  with a t(2,3,5,6) have "\<exists>a t. r = Ptr a \<and> holds h' a (factor_iter Wm H0 n k t) \<and> 0 < t
      \<and> t \<le> 300 \<and> (\<forall>s. 0 < s \<and> s < t \<longrightarrow> \<not> delta Wm H0 n k s < EPSILON)
      \<and> (delta Wm H0 n k t < EPSILON \<or> t = 300)"
    unfolding MAX_ITER_def by blast
  with EPSILON_value show ?thesis by simp
qed

text \<open>
  For \<open>W = [[1]]\<close> and \<open>H = [[2]]\<close> the iterates are those of Newton's iteration for the
  square root of 1. The first three move by more than \<open>1e-4\<close>, the fourth by less, and the
  fourth is returned: the double \<open>1.0000000464611474\<close>.
\<close>

theorem symnmf_iterations_witness:
  "fst (symnmf heap_newton 0 1 1 1) = Ptr 3
   \<and> holds (snd (symnmf heap_newton 0 1 1 1)) 3 (factor_iter [[Fin 1]] [[Fin 2]] 1 1 4)
   \<and> factor_iter [[Fin 1]] [[Fin 2]] 1 1 4 = [[Fin (2251799918306451 / 2251799813685248)]]
   \<and> delta [[Fin 1]] [[Fin 2]] 1 1 1 = Fin (9 / 16)
   \<and> delta [[Fin 1]] [[Fin 2]] 1 1 2 = Fin (7295831396340195 / 144115188075855872)
   \<and> delta [[Fin 1]] [[Fin 2]] 1 1 3 = Fin (5624864657737685 / 9223372036854775808)
   \<and> delta [[Fin 1]] [[Fin 2]] 1 1 4 = Fin (7021010240140741 / 75557863725914323419136)
   \<and> \<not> delta [[Fin 1]] [[Fin 2]] 1 1 1 < EPSILON
   \<and> \<not> delta [[Fin 1]] [[Fin 2]] 1 1 2 < EPSILON
   \<and> \<not> delta [[Fin 1]] [[Fin 2]] 1 1 3 < EPSILON
   \<and> delta [[Fin 1]] [[Fin 2]] 1 1 4 < EPSILON"
proof -
  let ?r = "symnmf heap_newton 0 1 1 1"
  have nf: "\<not> failed (snd ?r)"
    unfolding symnmf_heap_newton by (simp add: heap_newton_def)
  from symnmf_iterations[OF holds_heap_newton dims_unit dims_unit surjective_pairing nf]
  obtain a t where t: "fst ?r = Ptr a" "holds (snd ?r) a (factor_iter [[Fin 1]] [[Fin 2]] 1 1 t)"
    "0 < t" "\<forall>s. 0 < s \<and> s < t \<longrightarrow> \<not> delta [[Fin 1]] [[Fin 2]] 1 1 s < EPSILON"
    "delta [[Fin 1]] [[Fin 2]] 1 1 t < EPSILON \<or> t = 300"
    by blast
  have d: "\<not> delta [[Fin 1]] [[Fin 2]] 1 1 1 < EPSILON"
    "\<not> delta [[Fin 1]] [[Fin 2]] 1 1 2 < EPSILON"
    "\<not> delta [[Fin 1]] [[Fin 2]] 1 1 3 < EPSILON"
    "delta [[Fin 1]] [[Fin 2]] 1 1 4 < EPSILON"
    unfolding delta_newton EPSILON_value by simp_all
  have "\<not> 4 < t" using t(4) d(4) by auto
  with t(3) consider "t = 1" | "t = 2" | "t = 3" | "t = 4" by linarith
  then have "t = 4" using t(5) d(1-3) by cases auto
  moreover have "a = 3" using t(1) unfolding symnmf_heap_newton by simp
  ultimately have "holds (snd ?r) 3 (factor_iter [[Fin 1]] [[Fin 2]] 1 1 4)"
    using t(2) by simp
  moreover have "fst ?r = Ptr 3" unfolding symnmf_heap_newton by simp
  ultimately show ?thesis
    using d delta_newton factor_iter_newton by simp
qed

text \<open>
  C3. The matrix \<open>sym\<close> returns is the one the double loop over all ordered pairs gives:
  it is \<open>n\<close> by \<open>n\<close>, symmetric, zero on the diagonal, and off the diagonal entry \<open>(i, j)\<close>
  is \<open>exp (- ||points[i] - points[j]||^2 / 2)\<close>.
\<close>

theorem sym_c_similarity:
  assumes "dims points n d" and "sym_c h points n d = (Some A, h')"
  shows "A = similarity points n d \<and> dims A n n
       \<and> (\<forall>i<n. \<forall>j<n. A ! i ! j = A ! j ! i)
       \<and> (\<forall>i<n. A ! i ! i = 0)
       \<and> (\<forall>i<n. \<forall>j<n. i \<noteq> j \<longrightarrow> A ! i ! j = exp_d (- sq_dist points d i j / Fin 2))"
proof -
  have A: "A = similarity points n d" using assms(2) by (rule sym_c_result)
  have "dims A n n" unfolding A similarity_def by (rule dims_map)
  moreover have "A ! i ! j = A ! j ! i" if "i < n" "j < n" for i j
    unfolding A using that by (rule similarity_sym)
  ultimately show ?thesis using A by (simp add: similarity_nth)
qed

text \<open>
  Two points on a line at distance 1: the entry is the double nearest to \<open>exp (- 1/2)\<close>.
\<close>

theorem sym_c_similarity_witness:
  "similarity [[Fin 0], [Fin 1]] 2 1
   = [[Fin 0, Fin (nearest (exp (- (1 / 2))))], [Fin (nearest (exp (- (1 / 2)))), Fin 0]]
   \<and> fst (sym_c heap_empty [[Fin 0], [Fin 1]] 2 1) = Some (similarity [[Fin 0], [Fin 1]] 2 1)"
proof -
  from sym_c_similarity[OF dims_line sym_c_line]
  have "[[Fin 0, Fin (nearest (exp (- (1 / 2))))], [Fin (nearest (exp (- (1 / 2)))), Fin 0]]
        = similarity [[Fin 0], [Fin 1]] 2 1" by blast
  then show ?thesis unfolding sym_c_line by simp
qed




text \<open>
  C5. The matrix \<open>ddg\<close> returns is \<open>n\<close> by \<open>n\<close>, zero off the diagonal, and its diagonal
  entry \<open>i\<close> is the sum of row \<open>i\<close> of the similarity matrix; read as a vector, the diagonal
  is the vector of row sums of whatever \<open>sym\<close> returns on the same points.
\<close>

theorem ddg_diagonal:
  assumes "dims points n d" and "ddg h points n d = (Some D, h')"
  shows "dims D n n
       \<and> (\<forall>i<n. \<forall>j<n. i \<noteq> j \<longrightarrow> D ! i ! j = 0)
       \<and> (\<forall>i<n. D ! i ! i = row_sum (similarity points n d) n i)
       \<and> (\<forall>h1 A h1'. sym_c h1 points n d = (Some A, h1')
             \<longrightarrow> map (\<lambda>i. D ! i ! i) [0..<n] = map (row_sum A n) [0..<n])"
proof -
  have D: "D = degree points n d" using ddg_spec(3)[OF assms(2)] by simp
  have "dims D n n" unfolding D degree_def by (rule dims_map)
  moreover have "map (\<lambda>i. D ! i ! i) [0..<n] = map (row_sum A n) [0..<n]"
    if "sym_c h1 points n d = (Some A, h1')" for h1 A h1'
    using sym_c_result[OF that] by (simp add: D degree_nth)
  ultimately show ?thesis using D by (simp add: degree_nth)
qed

text \<open>Two identical points: the degree matrix is the identity.\<close>

theorem ddg_diagonal_witness:
  "fst (ddg heap_empty [[Fin 0], [Fin 0]] 2 1) = Some [[Fin 1, Fin 0], [Fin 0, Fin 1]]
   \<and> row_sum (similarity [[Fin 0], [Fin 0]] 2 1) 2 0 = Fin 1
   \<and> row_sum (similarity [[Fin 0], [Fin 0]] 2 1) 2 1 = Fin 1"
proof -
  from ddg_diagonal[OF dims_twice ddg_twice]
  have q: "\<forall>i<2. [[Fin 1, Fin 0], [Fin 0, Fin 1]] ! i ! i
          = row_sum (similarity [[Fin 0], [Fin 0]] 2 1) 2 i" by blast
  have "0 < (2::nat)" and "1 < (2::nat)" by simp_all
  from q[rule_format, OF this(1)] q[rule_format, OF this(2)]
  show ?thesis unfolding ddg_twice by simp
qed

text \<open>
  C6, as stated, fails. For the points 0 and 100 the entry is \<open>exp (-5000)\<close>, which is
  below half the least positive double and is returned as 0, outside \<open>(0, 1]\<close>. For the
  points 0 and \<open>2^-30\<close> the squared distance is \<open>2^-60\<close>, the exponential of \<open>- 2^-61\<close> is
  nearer to 1 than to the double below 1, and the entry is 1 although the points differ.
\<close>

theorem sym_c_range_counterexample:
  "fst (sym_c heap_empty [[Fin 0], [Fin 100]] 2 1) = Some [[Fin 0, Fin 0], [Fin 0, Fin 0]]
   \<and> [[Fin 0, Fin 0], [Fin 0, Fin 0]] ! 0 ! 1 = (0::dbl)
   \<and> fst (sym_c heap_empty [[Fin 0], [Fin small]] 2 1) = Some [[Fin 0, Fin 1], [Fin 1, Fin 0]]
   \<and> [[Fin 0, Fin 1], [Fin 1, Fin 0]] ! 0 ! 1 = (1::dbl)
   \<and> [[Fin 0], [Fin small]] ! 0 \<noteq> [[Fin 0], [Fin small]] ! 1"
  unfolding sym_c_far sym_c_near by (simp add: zero_dbl_def one_dbl_def small_def)

text \<open>
  C6, amended. For points with finite coordinates every off-diagonal entry of the
  matrix \<open>sym\<close> returns lies in \<open>[0, 1]\<close>. It is 1 when points \<open>i\<close> and \<open>j\<close> are identical,
  and only when they are close: the computed squared distance is below \<open>2^-50\<close> and every
  coordinate of the two points differs by less than \<open>2^-25\<close>. It is 0 only when they are
  far apart: the computed squared distance is at least 1000.
\<close>

theorem sym_c_range:
  assumes "dims points n d" and "list_all (list_all is_finite) points"
    and "sym_c h points n d = (Some A, h')" and "i < n" and "j < n" and "i \<noteq> j"
  shows "(\<exists>r. A ! i ! j = Fin r \<and> 0 \<le> r \<and> r \<le> 1)
       \<and> (points ! i = points ! j \<longrightarrow> A ! i ! j = 1)
       \<and> (A ! i ! j = 1 \<longrightarrow> sq_dist points d i j < Fin (1 / 2 ^ 50)
             \<and> (\<forall>k<d. \<forall>x y. points ! i ! k = Fin x \<and> points ! j ! k = Fin y
                    \<longrightarrow> \<bar>x - y\<bar> < 1 / 2 ^ 25))
       \<and> (A ! i ! j = 0 \<longrightarrow> Fin 1000 \<le> sq_dist points d i j)"
proof -
  have A: "A = similarity points n d" using assms(3) by (rule sym_c_result)
  have fin: "is_finite (points ! a ! k)" if "a < n" "k < d" for a k
    using assms(1,2) that dims_nth[OF assms(1) that(1)] by (simp add: dims_def list_all_length)
  have both: "is_finite (points ! i ! k) \<and> is_finite (points ! j ! k)" if "k < d" for k
    using fin that assms(4,5) by simp
  have "\<exists>r. A ! i ! j = Fin r \<and> 0 \<le> r \<and> r \<le> 1"
    unfolding A using both assms(4-6) by (intro similarity_range) simp_all
  moreover have "A ! i ! j = 1" if "points ! i = points ! j"
    unfolding A using fin assms(4-6) that by (intro similarity_same) simp_all
  moreover have "sq_dist points d i j < Fin (1 / 2 ^ 50)" if "A ! i ! j = 1"
    using similarity_one(1)[where d=d, OF both assms(4-6)] that by (simp add: A)
  moreover have "\<bar>x - y\<bar> < 1 / 2 ^ 25"
    if "A ! i ! j = 1" "k < d" "points ! i ! k = Fin x" "points ! j ! k = Fin y" for k x y
    using similarity_one(2)[where d=d, OF both assms(4-6) _ that(2-4)] that(1) by (simp add: A)
  moreover have "Fin 1000 \<le> sq_dist points d i j" if "A ! i ! j = 0"
    using similarity_zero[where d=d, OF both assms(4-6)] that by (simp add: A)
  ultimately show ?thesis by blast
qed

text \<open>
  Two points at distance 1: they differ by more than \<open>2^-25\<close> and their squared distance,
  1, is below 1000, so the entry \<open>sym\<close> returns is strictly between 0 and 1. Two
  identical points: the entry is 1.
\<close>

theorem sym_c_range_witness:
  "(\<exists>r. the (fst (sym_c heap_empty [[Fin 0], [Fin 1]] 2 1)) ! 0 ! 1 = Fin r \<and> 0 < r \<and> r < 1)
   \<and> the (fst (sym_c heap_empty [[Fin 0], [Fin 0]] 2 1)) ! 0 ! 1 = 1"
proof -
  let ?e = "nearest (exp (- (1 / 2)))"
  let ?A = "[[Fin 0, Fin ?e], [Fin ?e, Fin 0]]"
  have f: "list_all (list_all is_finite) [[Fin 0], [Fin 1]]"
    "list_all (list_all is_finite) [[Fin 0], [Fin 0]]" by simp_all
  have ij: "(0::nat) < 2" "(1::nat) < 2" "(0::nat) \<noteq> 1" by simp_all
  note line = sym_c_range[OF dims_line f(1) sym_c_line ij]
  note twice = sym_c_range[OF dims_twice f(2) sym_c_twice ij]
  from line obtain r where r: "?A ! 0 ! 1 = Fin r" "0 \<le> r" "r \<le> 1" by blast
  have "r \<noteq> 1"
  proof
    assume "r = 1"
    with r(1) have "?A ! 0 ! 1 = 1" by (simp add: one_dbl_def)
    with line have q: "\<forall>k<1. \<forall>x y. [[Fin 0], [Fin 1]] ! 0 ! k = Fin x
        \<and> [[Fin 0], [Fin 1]] ! 1 ! k = Fin y \<longrightarrow> \<bar>x - y\<bar> < 1 / 2 ^ 25" by blast
    from q[rule_format, of 0 0 1] show False by simp
  qed
  moreover have "r \<noteq> 0"
  proof
    assume "r = 0"
    with r(1) have "?A ! 0 ! 1 = 0" by (simp add: zero_dbl_def)
    with line have "Fin 1000 \<le> sq_dist [[Fin 0], [Fin 1]] 1 0 1" by blast
    then show False unfolding sq_dist_line by simp
  qed
  ultimately have "\<exists>r. ?A ! 0 ! 1 = Fin r \<and> 0 < r \<and> r < 1" using r by auto
  moreover from twice have "[[Fin 0, Fin 1], [Fin 1, Fin 0]] ! 0 ! 1 = (1::dbl)" by simp
  ultimately show ?thesis unfolding sym_c_line sym_c_twice by simp
qed

text \<open>
  C7 at an input where the code breaks it. On the store with \<open>W = [[1]]\<close> and \<open>H = [[1]]\<close>,
  with the second request refused, an allocation has failed and \<open>symnmf\<close> does not
  return \<open>NULL\<close>: it has no defined behaviour.
\<close>

theorem symnmf_refusal_undefined:
  "\<not> failed heap_refuse_unit
   \<and> failed (snd (symnmf heap_refuse_unit 0 1 1 1))
   \<and> fst (symnmf heap_refuse_unit 0 1 1 1) = Undefined"
  by (simp add: heap_refuse_unit_def heap_unit_def symnmf_def request_def)

text \<open>
  C8, as stated, fails: with \<open>W = [[0, 1], [1, 0]]\<close> and \<open>H = [[1, 0], [0, 1]]\<close> the entry
  \<open>H[0][1]\<close> is 0 before the update and NaN after it, since \<open>WH[0][1] = 1\<close> and
  \<open>HHtH[0][1] = 0\<close>.
\<close>

theorem update_H_zero_counterexample:
  "get heap_swap 1 ! 0 ! 1 = 0
   \<and> fst (update_H heap_swap 0 1 2 2)
   \<and> get (snd (update_H heap_swap 0 1 2 2)) 1 ! 0 ! 1 = NaN
   \<and> NaN \<noteq> (0::dbl)"
  unfolding update_H_heap_swap by (simp add: heap_swap_def get_def zero_dbl_def)

text \<open>
  C8, amended. An entry of \<open>H\<close> that is 0 before an update step is 0 after it if its
  factor \<open>(1 - \<beta>) + \<beta> (WH[i][j] / HHtH[i][j])\<close> is finite, and NaN after it if the factor is
  an infinity or NaN. In every iterate, and so in the matrix \<open>symnmf\<close> returns, the entry
  is 0 when its factor has been finite in every step so far, and NaN otherwise.
\<close>

theorem update_H_zero_entry:
  assumes "holds h W Wm" and "holds h H Hm" and "dims Wm n n" and "dims Hm n k"
    and "i < n" and "j < k" and "Hm ! i ! j = 0"
  shows "(\<forall>h'. update_H h W H n k = (True, h') \<longrightarrow>
            get h' H ! i ! j = (if is_finite (update_factor Wm Hm n k i j) then 0 else NaN))
       \<and> (\<forall>t. factor_iter Wm Hm n k t ! i ! j
              = (if \<forall>s<t. is_finite (update_factor Wm (factor_iter Wm Hm n k s) n k i j)
                 then 0 else NaN))
       \<and> (\<forall>a h'. symnmf h W H n k = (Ptr a, h') \<longrightarrow>
            (\<exists>t. 0 < t \<and> t \<le> 300 \<and> get h' a = factor_iter Wm Hm n k t
               \<and> get h' a ! i ! j
                 = (if \<forall>s<t. is_finite (update_factor Wm (factor_iter Wm Hm n k s) n k i j)
                    then 0 else NaN)))"
proof -
  have gH: "get h H = Hm" and gW: "get h W = Wm"
    using assms(1,2) by (simp_all add: holds_get)
  have one: "get h' H ! i ! j = (if is_finite (update_factor Wm Hm n k i j) then 0 else NaN)"
    if run: "update_H h W H n k = (True, h')" for h'
  proof -
    from update_H_True[OF run] assms(4) gH gW
    have "objs h' = (objs h)[H := Some (update_rule Wm Hm n k)]" by simp
    with assms(2) have "get h' H = update_rule Wm Hm n k"
      by (simp add: get_def holds_def)
    then show ?thesis
      using assms(5-7) by (simp add: update_rule_nth zero_times_finite zero_times_not_finite)
  qed
  have many: "factor_iter Wm Hm n k t ! i ! j
      = (if \<forall>s<t. is_finite (update_factor Wm (factor_iter Wm Hm n k s) n k i j)
         then 0 else NaN)" for t
  proof (induction t)
    case 0
    then show ?case using assms(7) by simp
  next
    case (Suc t)
    let ?f = "\<lambda>s. update_factor Wm (factor_iter Wm Hm n k s) n k i j"
    have step: "factor_iter Wm Hm n k (Suc t) ! i ! j = factor_iter Wm Hm n k t ! i ! j * ?f t"
      using assms(5,6) by (simp add: update_rule_nth)
    show ?case
    proof (cases "\<forall>s<t. is_finite (?f s)")
      case True
      with Suc have z: "factor_iter Wm Hm n k t ! i ! j = 0" by simp
      show ?thesis
      proof (cases "is_finite (?f t)")
        case True
        with \<open>\<forall>s<t. is_finite (?f s)\<close> have all: "\<forall>s<Suc t. is_finite (?f s)"
          by (auto simp: less_Suc_eq)
        have v: "factor_iter Wm Hm n k (Suc t) ! i ! j = 0"
          unfolding step z using True by (rule zero_times_finite)
        show ?thesis unfolding v by (rule if_P[OF all, symmetric])
      next
        case False
        then have no: "\<not> (\<forall>s<Suc t. is_finite (?f s))" by auto
        have v: "factor_iter Wm Hm n k (Suc t) ! i ! j = NaN"
          unfolding step z using False by (rule zero_times_not_finite)
        show ?thesis unfolding v by (rule if_not_P[OF no, symmetric])
      qed
    next
      case False
      with Suc have z: "factor_iter Wm Hm n k t ! i ! j = NaN" by simp
      from False have no: "\<not> (\<forall>s<Suc t. is_finite (?f s))" by (auto simp: less_Suc_eq)
      have v: "factor_iter Wm Hm n k (Suc t) ! i ! j = NaN"
        unfolding step z by simp
      show ?thesis unfolding v by (rule if_not_P[OF no, symmetric])
    qed
  qed
  have ret: "\<exists>t. 0 < t \<and> t \<le> 300 \<and> get h' a = factor_iter Wm Hm n k t
      \<and> get h' a ! i ! j
        = (if \<forall>s<t. is_finite (update_factor Wm (factor_iter Wm Hm n k s) n k i j)
           then 0 else NaN)"
    if run: "symnmf h W H n k = (Ptr a, h')" for a h'
  proof -
    from assms(1,2) have W: "W < length (objs h)" "objs h ! W = Some Wm"
      and H: "H < length (objs h)" "objs h ! H = Some Hm"
      by (simp_all add: holds_def)
    from symnmf_objs(3)[OF W H assms(4) run refl]
    obtain t where t: "a = Suc (length (objs h))" "0 < t" "t \<le> MAX_ITER"
      "objs h' = objs h @ [None, Some (factor_iter Wm Hm n k t)]"
      by blast
    have "get h' a = factor_iter Wm Hm n k t"
      using t(1,4) by (simp add: get_def nth_append)
    with t(2,3) many[of t] show ?thesis unfolding MAX_ITER_def by auto
  qed
  from one many ret show ?thesis by blast
qed

text \<open>
  With \<open>W = [[0, 3 c^2], [3 c^2, 0]]\<close> and \<open>H = [[0, c], [c, c]]\<close>, \<open>c = 1/128\<close>, the factor
  of entry \<open>(0, 0)\<close> is 2 and the entry stays 0, in one step and in the matrix \<open>symnmf\<close>
  returns. With \<open>W = [[0, 1], [1, 0]]\<close> and \<open>H = [[1, 0], [0, 1]]\<close> the factor of entry
  \<open>(0, 1)\<close> is \<open>+Inf\<close> and the entry becomes NaN.
\<close>

theorem update_H_zero_entry_witness:
  "fst (update_H heap_zero 0 1 2 2)
   \<and> update_factor [[Fin 0, Fin (3 / 16384)], [Fin (3 / 16384), Fin 0]]
                    [[Fin 0, Fin (1 / 128)], [Fin (1 / 128), Fin (1 / 128)]] 2 2 0 0 = Fin 2
   \<and> get (snd (update_H heap_zero 0 1 2 2)) 1 ! 0 ! 0 = 0
   \<and> fst (symnmf heap_zero 0 1 2 2) = Ptr 3
   \<and> get (snd (symnmf heap_zero 0 1 2 2)) 3 ! 0 ! 0 = 0
   \<and> (\<exists>t. 0 < t \<and> t \<le> 300
          \<and> get (snd (symnmf heap_zero 0 1 2 2)) 3
            = factor_iter [[Fin 0, Fin (3 / 16384)], [Fin (3 / 16384), Fin 0]]
                          [[Fin 0, Fin (1 / 128)], [Fin (1 / 128), Fin (1 / 128)]] 2 2 t)
   \<and> fst (update_H heap_swap 0 1 2 2)
   \<and> update_factor [[Fin 0, Fin 1], [Fin 1, Fin 0]] [[Fin 1, Fin 0], [Fin 0, Fin 1]] 2 2 0 1 = PInf
   \<and> get (snd (update_H heap_swap 0 1 2 2)) 1 ! 0 ! 1 = NaN"
proof -
  have i: "(0::nat) < 2" "(1::nat) < 2" by simp_all
  have z: "[[Fin 0, Fin (1 / 128)], [Fin (1 / 128), Fin (1 / 128)]] ! 0 ! 0 = (0::dbl)"
    "[[Fin 1, Fin 0], [Fin 0, Fin 1]] ! 0 ! 1 = (0::dbl)"
    by (simp_all add: zero_dbl_def)
  note zero = update_H_zero_entry[OF holds_heap_zero dims_square dims_square i(1) i(1) z(1)]
  note swap = update_H_zero_entry[OF holds_heap_swap dims_square dims_square i(1) i(2) z(2)]
  have uz: "update_H heap_zero 0 1 2 2 = (True, snd (update_H heap_zero 0 1 2 2))"
    unfolding update_H_heap_zero by simp
  have us: "update_H heap_swap 0 1 2 2 = (True, snd (update_H heap_swap 0 1 2 2))"
    unfolding update_H_heap_swap by simp
  have sz: "symnmf heap_zero 0 1 2 2 = (Ptr 3, snd (symnmf heap_zero 0 1 2 2))"
    unfolding symnmf_heap_zero by simp
  from zero uz have "get (snd (update_H heap_zero 0 1 2 2)) 1 ! 0 ! 0 = 0"
    unfolding update_factor_heap_zero by auto
  moreover from swap us have "get (snd (update_H heap_swap 0 1 2 2)) 1 ! 0 ! 1 = NaN"
    unfolding update_factor_heap_swap by auto
  moreover from zero sz have "\<exists>t. 0 < t \<and> t \<le> 300
      \<and> get (snd (symnmf heap_zero 0 1 2 2)) 3
        = factor_iter [[Fin 0, Fin (3 / 16384)], [Fin (3 / 16384), Fin 0]]
                      [[Fin 0, Fin (1 / 128)], [Fin (1 / 128), Fin (1 / 128)]] 2 2 t"
    by blast
  moreover have "get (snd (symnmf heap_zero 0 1 2 2)) 3 ! 0 ! 0 = 0"
    unfolding symnmf_heap_zero by (simp add: get_def zero_dbl_def)
  moreover have "fst (update_H heap_zero 0 1 2 2)" "fst (update_H heap_swap 0 1 2 2)"
    "fst (symnmf heap_zero 0 1 2 2) = Ptr 3"
    unfolding update_H_heap_zero update_H_heap_swap symnmf_heap_zero by simp_all
  ultimately show ?thesis
    using update_factor_heap_zero update_factor_heap_swap by simp
qed



text \<open>
  C10. When \<open>update_H\<close> returns 0, the store is as it was before the call, so no entry of
  \<open>H\<close> has changed, and an allocation was refused.
\<close>

theorem update_H_atomic:
  assumes "update_H h W H n k = (False, h')"
  shows "objs h' = objs h \<and> get h' H = get h H \<and> failed h'"
  using update_H_False_objs[OF assms] update_H_failed[OF assms]
  by (simp add: get_def)

text \<open>With the fifth request refused, the transpose cannot be allocated.\<close>

theorem update_H_atomic_witness:
  "objs (snd (update_H heap_short 0 1 2 2)) = objs heap_short
   \<and> get (snd (update_H heap_short 0 1 2 2)) 1 = get heap_short 1
   \<and> failed (snd (update_H heap_short 0 1 2 2))"
proof -
  have "update_H heap_short 0 1 2 2 = (False, snd (update_H heap_short 0 1 2 2))"
    unfolding update_H_heap_short by simp
  from update_H_atomic[OF this] show ?thesis .
qed

end
